theory Spec2Isabelle
  imports Main
begin

section \<open>The host environment\<close>

text \<open>
  The engine runs against a page it does not own: \<^verbatim>\<open>document.querySelector\<close>, the four
  element operations, the time that passes at a \<^verbatim>\<open>setTimeout\<close>, the page's own pending
  jobs that run while the engine is suspended at an \<^verbatim>\<open>await\<close>, and the caller's
  \<^verbatim>\<open>onError\<close> callbacks. None of this is in the repository, so it is a parameter: a
  record of functions over an arbitrary page state \<open>'p\<close>. Every operation of the host may
  throw where JavaScript lets it.
\<close>

type_synonym element = nat

datatype error =
    UnsupportedType string  \<comment> \<open>the \<^verbatim>\<open>Error\<close> thrown by the \<^verbatim>\<open>default\<close> branch of the factory\<close>
  | HostFault nat           \<comment> \<open>any exception raised by the host (DOM or callback)\<close>

datatype lookup =
    Threw error     \<comment> \<open>\<^verbatim>\<open>querySelector\<close> throws (for instance on an invalid selector)\<close>
  | Null            \<comment> \<open>no element matches\<close>
  | Found element

datatype primitive = Click | SetValue string | Focus | ReadText

datatype observer =
    ConsoleReporter string  \<comment> \<open>\<^verbatim>\<open>(error) => console.error(message, error)\<close>\<close>
  | Callback nat            \<comment> \<open>any other caller-supplied function\<close>

record 'p host =
  querySelector :: "'p \<Rightarrow> string \<Rightarrow> lookup"
  operate :: "primitive \<Rightarrow> element \<Rightarrow> 'p \<Rightarrow> error option \<times> 'p"
  elapse :: "int \<Rightarrow> 'p \<Rightarrow> 'p"
  yield :: "'p \<Rightarrow> 'p"
  callback :: "nat \<Rightarrow> error \<Rightarrow> 'p \<Rightarrow> error option \<times> 'p"

text \<open>
  What the engine does to the host is recorded in a trace, in program order.
\<close>

datatype event =
    EvQuery string                 \<comment> \<open>\<^verbatim>\<open>document.querySelector(selector)\<close>\<close>
  | EvPrimitive primitive element  \<comment> \<open>one of the four element operations is invoked\<close>
  | EvConsoleError error           \<comment> \<open>the \<^verbatim>\<open>console.error\<close> of \<^verbatim>\<open>findAndPerformAction\<close>\<close>
  | EvOnError observer error       \<comment> \<open>the \<^verbatim>\<open>onError\<close> observer is invoked\<close>
  | EvWait int                     \<comment> \<open>\<^verbatim>\<open>wait(ms)\<close>\<close>

record 'p world =
  page :: 'p
  trace :: "event list"

definition emit :: "event \<Rightarrow> 'p world \<Rightarrow> 'p world" where
  "emit e w = w\<lparr>trace := trace w @ [e]\<rparr>"

type_synonym 'p invocable = "element \<Rightarrow> 'p world \<Rightarrow> error option \<times> 'p world"
type_synonym 'p thunk = "'p world \<Rightarrow> (error + bool) \<times> 'p world"

fun is_primitive :: "event \<Rightarrow> bool" where
  "is_primitive (EvPrimitive a el) = True"
| "is_primitive e = False"

fun is_onError :: "event \<Rightarrow> bool" where
  "is_onError (EvOnError ob e) = True"
| "is_onError e = False"

fun is_wait :: "event \<Rightarrow> bool" where
  "is_wait (EvWait ms) = True"
| "is_wait e = False"

fun is_query :: "event \<Rightarrow> bool" where
  "is_query (EvQuery s) = True"
| "is_query e = False"

fun is_consoleError :: "event \<Rightarrow> bool" where
  "is_consoleError (EvConsoleError e) = True"
| "is_consoleError e = False"

definition count_events :: "(event \<Rightarrow> bool) \<Rightarrow> 'p world \<Rightarrow> nat" where
  "count_events P w = length (filter P (trace w))"

text \<open>The trace of \<open>w'\<close> is the trace of \<open>w\<close> with events added that all satisfy \<open>Q\<close>.\<close>

definition extends :: "(event \<Rightarrow> bool) \<Rightarrow> 'p world \<Rightarrow> 'p world \<Rightarrow> bool" where
  "extends Q w w' = (\<exists>evs. trace w' = trace w @ evs \<and> list_all Q evs)"

section \<open>The engine (part\_001)\<close>

text \<open>
  The functions of part\_001, in the order of the file. (\<^verbatim>\<open>demo.js\<close> is the same file at an
  earlier stage, before \<^verbatim>\<open>waitBefore\<close>, \<^verbatim>\<open>retries\<close> and \<^verbatim>\<open>onError\<close> came in.)
\<close>

subsection \<open>findAndPerformAction\<close>

text \<open>
  The body of the \<^verbatim>\<open>try\<close> block: an exception of \<^verbatim>\<open>querySelector\<close> or of the action
  leaves it as \<open>Inl\<close>.
\<close>

definition findAndPerformAction_try ::
  "'p host \<Rightarrow> string \<Rightarrow> 'p invocable \<Rightarrow> 'p thunk" where
  "findAndPerformAction_try h selector action w =
     (let w0 = emit (EvQuery selector) w in
      case querySelector h (page w0) selector of
        Threw e \<Rightarrow> (Inl e, w0)
      | Null \<Rightarrow> (Inr False, w0)
      | Found el \<Rightarrow>
          (case action el w0 of
             (Some e, w1) \<Rightarrow> (Inl e, w1)
           | (None, w1) \<Rightarrow> (Inr True, w1)))"

text \<open>The \<^verbatim>\<open>catch\<close> block logs the error and returns \<^verbatim>\<open>false\<close>.\<close>

definition findAndPerformAction ::
  "'p host \<Rightarrow> string \<Rightarrow> 'p invocable \<Rightarrow> 'p thunk" where
  "findAndPerformAction h selector action w =
     (case findAndPerformAction_try h selector action w of
        (Inl e, w1) \<Rightarrow> (Inr False, emit (EvConsoleError e) w1)
      | (Inr b, w1) \<Rightarrow> (Inr b, w1))"

subsection \<open>ElementActionType and generateActionByType\<close>

definition CLICK :: string where "CLICK = ''click''"
definition INPUT :: string where "INPUT = ''input''"
definition FOCUS :: string where "FOCUS = ''focus''"
definition READ_TEXT :: string where "READ_TEXT = ''readText''"

text \<open>Invoking an element operation: the host performs it, the trace records it.\<close>

definition invoke_primitive :: "'p host \<Rightarrow> primitive \<Rightarrow> 'p invocable" where
  "invoke_primitive h a el w =
     (case operate h a el (page w) of
        (r, p) \<Rightarrow> (r, emit (EvPrimitive a el) (w\<lparr>page := p\<rparr>)))"

text \<open>A default of a parameter or of a destructuring pattern applies to \<^verbatim>\<open>undefined\<close>.\<close>

fun default_to :: "'a \<Rightarrow> 'a option \<Rightarrow> 'a" where
  "default_to d None = d"
| "default_to d (Some v) = v"

definition generateActionByType ::
  "'p host \<Rightarrow> string \<Rightarrow> string option \<Rightarrow> error + 'p invocable" where
  "generateActionByType h type val =
     (if type = CLICK then Inr (invoke_primitive h Click)
      else if type = INPUT then Inr (invoke_primitive h (SetValue (default_to [] val)))
      else if type = FOCUS then Inr (invoke_primitive h Focus)
      else if type = READ_TEXT then Inr (invoke_primitive h ReadText)
      else Inl (UnsupportedType type))"

subsection \<open>findAndPerformActionByType\<close>

text \<open>
  An \<^verbatim>\<open>async\<close> function: the exception of the factory rejects the returned promise
  (\<open>Inl\<close>), before the selector is looked up.
\<close>

definition findAndPerformActionByType ::
  "'p host \<Rightarrow> string \<Rightarrow> string \<Rightarrow> string option \<Rightarrow> 'p thunk" where
  "findAndPerformActionByType h selector type val w =
     (case generateActionByType h type (Some (default_to [] val)) of
        Inl e \<Rightarrow> (Inl e, w)
      | Inr action \<Rightarrow> findAndPerformAction h selector action w)"

subsection \<open>wait and withRetry\<close>

text \<open>
  \<^verbatim>\<open>await wait(ms)\<close>: the call arms the timer, and the run goes on when the timer has
  fired, on the page as it is \<open>ms\<close> milliseconds later.
\<close>

definition wait_called :: "int \<Rightarrow> 'p world \<Rightarrow> 'p world" where
  "wait_called ms w = emit (EvWait ms) w"

definition wait_fired :: "'p host \<Rightarrow> int \<Rightarrow> 'p world \<Rightarrow> 'p world" where
  "wait_fired h ms w = w\<lparr>page := elapse h ms (page w)\<rparr>"

definition wait :: "'p host \<Rightarrow> int \<Rightarrow> 'p world \<Rightarrow> 'p world" where
  "wait h ms w = wait_fired h ms (wait_called ms w)"

text \<open>
  The loop is suspended at \<^verbatim>\<open>await action()\<close>; the page's pending jobs run there. (The
  \<^verbatim>\<open>await action(element)\<close> inside \<^verbatim>\<open>findAndPerformAction\<close> is followed by
  \<^verbatim>\<open>return true\<close> only, so this one suspension stands for both.)
\<close>

definition suspend :: "'p host \<Rightarrow> 'p world \<Rightarrow> 'p world" where
  "suspend h w = w\<lparr>page := yield h (page w)\<rparr>"

text \<open>
  \<^verbatim>\<open>onError(error)\<close>: the observer runs and may itself throw, which nothing catches.
\<close>

fun notify :: "'p host \<Rightarrow> observer \<Rightarrow> error \<Rightarrow> 'p world \<Rightarrow> error option \<times> 'p world" where
  "notify h (ConsoleReporter msg) e w = (None, emit (EvOnError (ConsoleReporter msg) e) w)"
| "notify h (Callback n) e w =
     (case callback h n e (page w) of
        (r, p) \<Rightarrow> (r, emit (EvOnError (Callback n) e) (w\<lparr>page := p\<rparr>)))"

text \<open>
  The \<^verbatim>\<open>for\<close> loop of \<^verbatim>\<open>withRetry\<close>, from index \<open>i\<close>. The variable \<^verbatim>\<open>lastError\<close> is
  written and never read, so it is left out.
\<close>

function withRetry_loop ::
  "'p host \<Rightarrow> 'p thunk \<Rightarrow> int \<Rightarrow> observer option \<Rightarrow> int \<Rightarrow> 'p world
     \<Rightarrow> (error + bool) \<times> 'p world" where
  "withRetry_loop h action retries onError i w =
     (if i \<le> retries then
        (case action w of
           (Inr True, w1) \<Rightarrow> (Inr True, suspend h w1)
         | (Inr False, w1) \<Rightarrow> withRetry_loop h action retries onError (i + 1) (suspend h w1)
         | (Inl e, w1) \<Rightarrow>
             (case onError of
                None \<Rightarrow> withRetry_loop h action retries onError (i + 1) (suspend h w1)
              | Some ob \<Rightarrow>
                  (case notify h ob e (suspend h w1) of
                     (Some e', w2) \<Rightarrow> (Inl e', w2)
                   | (None, w2) \<Rightarrow> withRetry_loop h action retries onError (i + 1) w2)))
      else (Inr False, w))"
  by pat_completeness auto
termination
  by (relation "measure (\<lambda>(h, action, retries, onError, i, w). nat (retries + 1 - i))") auto

definition withRetry ::
  "'p host \<Rightarrow> 'p thunk \<Rightarrow> int \<Rightarrow> observer option \<Rightarrow> 'p world \<Rightarrow> (error + bool) \<times> 'p world" where
  "withRetry h action retries onError w = withRetry_loop h action retries onError 0 w"

subsection \<open>performActionByConfig\<close>

text \<open>
  An \<^verbatim>\<open>ElementConfig\<close>. An optional property that is absent (or \<^verbatim>\<open>undefined\<close>) is \<open>None\<close>.
\<close>

record config =
  c_selector :: string
  c_type :: string
  c_value :: "string option"
  c_waitBefore :: "int option"
  c_retries :: "int option"
  c_onError :: "observer option"

definition performActionByConfig ::
  "'p host \<Rightarrow> config \<Rightarrow> 'p world \<Rightarrow> (error + bool) \<times> 'p world" where
  "performActionByConfig h cfg w =
     (let selector = c_selector cfg;
          type = c_type cfg;
          val = default_to [] (c_value cfg);
          waitBefore = default_to 0 (c_waitBefore cfg);
          retries = default_to 0 (c_retries cfg);
          onError = c_onError cfg;
          w1 = (if waitBefore > 0 then wait h waitBefore w else w)
      in withRetry h (findAndPerformActionByType h selector type (Some val)) retries onError w1)"

text \<open>
  The world in which attempt \<open>j + 1\<close> of the loop starts when the \<open>j\<close> attempts before it
  all returned \<^verbatim>\<open>false\<close>: each of them ran the thunk and was suspended once.
\<close>

definition attempt_world :: "'p host \<Rightarrow> 'p thunk \<Rightarrow> 'p world \<Rightarrow> nat \<Rightarrow> 'p world" where
  "attempt_world h action w j = ((\<lambda>v. suspend h (snd (action v))) ^^ j) w"

text \<open>The thunk that \<^verbatim>\<open>performActionByConfig\<close> hands to \<^verbatim>\<open>withRetry\<close>, and the world it starts in.\<close>

definition config_thunk :: "'p host \<Rightarrow> config \<Rightarrow> 'p thunk" where
  "config_thunk h cfg =
     findAndPerformActionByType h (c_selector cfg) (c_type cfg)
       (Some (default_to [] (c_value cfg)))"

definition after_delay :: "'p host \<Rightarrow> config \<Rightarrow> 'p world \<Rightarrow> 'p world" where
  "after_delay h cfg w =
     (if default_to 0 (c_waitBefore cfg) > 0 then wait h (default_to 0 (c_waitBefore cfg)) w else w)"

subsection \<open>performActionsByConfigs\<close>

text \<open>
  \<^verbatim>\<open>Promise.all(configs.map(performActionByConfig))\<close> starts one run of
  \<^verbatim>\<open>performActionByConfig\<close> per descriptor and lets the runs interleave: a run gives up
  control at each \<^verbatim>\<open>await\<close>, and goes on later from where it was suspended. Between two
  suspension points a run is atomic (JavaScript has one thread). The state of one run:
\<close>

datatype task =
    Start                        \<comment> \<open>\<^verbatim>\<open>performActionByConfig\<close> has not been called yet\<close>
  | Sleeping                     \<comment> \<open>suspended at \<^verbatim>\<open>await wait(waitBefore)\<close>\<close>
  | Pending int "error + bool"   \<comment> \<open>suspended at \<^verbatim>\<open>await action()\<close> in iteration \<open>i\<close>; the thunk's
                                     promise has settled with the given outcome\<close>
  | Fulfilled bool               \<comment> \<open>the promise of the run is fulfilled\<close>
  | Rejected error               \<comment> \<open>the promise of the run is rejected\<close>

text \<open>Entering iteration \<open>i\<close> of the loop: the test, then the thunk up to the \<^verbatim>\<open>await\<close>.\<close>

definition enter_iteration :: "'p host \<Rightarrow> config \<Rightarrow> int \<Rightarrow> 'p world \<Rightarrow> task \<times> 'p world" where
  "enter_iteration h cfg i w =
     (if i \<le> default_to 0 (c_retries cfg) then
        (case config_thunk h cfg w of (r, w1) \<Rightarrow> (Pending i r, w1))
      else (Fulfilled False, w))"

text \<open>One atomic stretch of a run, from where it was suspended to its next suspension.\<close>

fun task_step :: "'p host \<Rightarrow> config \<Rightarrow> task \<Rightarrow> 'p world \<Rightarrow> task \<times> 'p world" where
  "task_step h cfg Start w =
     (if default_to 0 (c_waitBefore cfg) > 0
      then (Sleeping, wait_called (default_to 0 (c_waitBefore cfg)) w)
      else enter_iteration h cfg 0 w)"
| "task_step h cfg Sleeping w =
     enter_iteration h cfg 0 (wait_fired h (default_to 0 (c_waitBefore cfg)) w)"
| "task_step h cfg (Pending i (Inr True)) w = (Fulfilled True, suspend h w)"
| "task_step h cfg (Pending i (Inr False)) w = enter_iteration h cfg (i + 1) (suspend h w)"
| "task_step h cfg (Pending i (Inl e)) w =
     (case c_onError cfg of
        None \<Rightarrow> enter_iteration h cfg (i + 1) (suspend h w)
      | Some ob \<Rightarrow>
          (case notify h ob e (suspend h w) of
             (Some e', w2) \<Rightarrow> (Rejected e', w2)
           | (None, w2) \<Rightarrow> enter_iteration h cfg (i + 1) w2))"
| "task_step h cfg (Fulfilled b) w = (Fulfilled b, w)"
| "task_step h cfg (Rejected e) w = (Rejected e, w)"

text \<open>
  The batch: the runs, the world they share, and the first rejection seen
  (\<^verbatim>\<open>Promise.all\<close> rejects with it, whatever the other runs do afterwards).
\<close>

record 'p batch =
  tasks :: "task list"
  shared :: "'p world"
  rejection :: "error option"

definition batch_step :: "'p host \<Rightarrow> config list \<Rightarrow> nat \<Rightarrow> 'p batch \<Rightarrow> 'p batch" where
  "batch_step h cfgs k b =
     (if k < length (tasks b) \<and> k < length cfgs then
        (case task_step h (cfgs ! k) (tasks b ! k) (shared b) of
           (t, w) \<Rightarrow>
             b\<lparr>tasks := (tasks b)[k := t],
               shared := w,
               rejection :=
                 (case rejection b of
                    Some e \<Rightarrow> Some e
                  | None \<Rightarrow> (case t of Rejected e \<Rightarrow> Some e | _ \<Rightarrow> None))\<rparr>)
      else b)"

fun fulfilled :: "task \<Rightarrow> bool" where
  "fulfilled (Fulfilled b) = True"
| "fulfilled t = False"

fun fulfilled_value :: "task \<Rightarrow> bool" where
  "fulfilled_value (Fulfilled b) = b"
| "fulfilled_value t = False"

text \<open>
  The state of the promise \<^verbatim>\<open>Promise.all\<close> returns: \<open>None\<close> while it is pending.
\<close>

definition promise_all :: "'p batch \<Rightarrow> (error + bool list) option" where
  "promise_all b =
     (case rejection b of
        Some e \<Rightarrow> Some (Inl e)
      | None \<Rightarrow>
          if list_all fulfilled (tasks b) then Some (Inr (map fulfilled_value (tasks b)))
          else None)"

text \<open>
  Which run goes on next is the event loop's choice; the runner is modelled for every
  order, given as the list \<open>sched\<close> of the indices of the runs that take a step.
  (The event loop itself calls the runs for the first time in the order of the array.)
\<close>

definition start_batch :: "config list \<Rightarrow> 'p world \<Rightarrow> 'p batch" where
  "start_batch cfgs w = \<lparr>tasks = replicate (length cfgs) Start, shared = w, rejection = None\<rparr>"

definition performActionsByConfigs ::
  "'p host \<Rightarrow> config list \<Rightarrow> nat list \<Rightarrow> 'p world \<Rightarrow> (error + bool list) option \<times> 'p world" where
  "performActionsByConfigs h cfgs sched w =
     (let b = fold (batch_step h cfgs) sched (start_batch cfgs w)
      in (promise_all b, shared b))"

text \<open>
  A schedule that lets every run finish: a run needs at most one step for its call, one
  more when it has a timer to wait for, and one to leave each of the \<^verbatim>\<open>retries + 1\<close>
  iterations of its loop.
\<close>

definition steps_needed :: "config \<Rightarrow> nat" where
  "steps_needed cfg =
     nat (default_to 0 (c_retries cfg) + 1) + 1 +
     (if 0 < default_to 0 (c_waitBefore cfg) then 1 else 0)"

definition sequential_schedule :: "config list \<Rightarrow> nat list" where
  "sequential_schedule cfgs =
     concat (map (\<lambda>k. replicate (steps_needed (cfgs ! k)) k) [0..<length cfgs])"

section \<open>The recorder (part\_000)\<close>

text \<open>The target of an event, as far as the recorder reads it, and the event.\<close>

record dom_element =
  el_id :: string
  el_value :: string

record dom_event =
  ev_type :: string
  ev_target :: dom_element

datatype handler = HandleClick | HandleInput | HandleFocus

text \<open>
  The \<^verbatim>\<open>VisualRecorder\<close> object, and beside it the listeners of the document
  (in the order they were added).
\<close>

record recorder =
  recordedConfig :: "config list"
  eventListeners :: "(string \<times> handler) list"
  isFirstClick :: bool
  documentListeners :: "(string \<times> handler) list"

definition new_VisualRecorder :: recorder where
  "new_VisualRecorder =
     \<lparr>recordedConfig = [], eventListeners = [], isFirstClick = True, documentListeners = []\<rparr>"

text \<open>\<^verbatim>\<open>obj[key] = v\<close> on an object whose keys keep their insertion order.\<close>

fun assign :: "string \<Rightarrow> handler \<Rightarrow> (string \<times> handler) list \<Rightarrow> (string \<times> handler) list" where
  "assign k v [] = [(k, v)]"
| "assign k v ((k', v') # kvs) = (if k = k' then (k, v) # kvs else (k', v') # assign k v kvs)"

definition addEventListener :: "string \<Rightarrow> handler \<Rightarrow> recorder \<Rightarrow> recorder" where
  "addEventListener eventType handler r =
     r\<lparr>documentListeners := documentListeners r @ [(eventType, handler)],
       eventListeners := assign eventType handler (eventListeners r)\<rparr>"

definition startRecording :: "recorder \<Rightarrow> recorder" where
  "startRecording r =
     addEventListener ''focus'' HandleFocus
       (addEventListener ''input'' HandleInput
         (addEventListener ''click'' HandleClick r))"

definition stopRecording :: "recorder \<Rightarrow> recorder" where
  "stopRecording r =
     r\<lparr>documentListeners := fold remove1 (eventListeners r) (documentListeners r),
       eventListeners := []\<rparr>"

definition getRecordedConfig :: "recorder \<Rightarrow> config list" where
  "getRecordedConfig r = recordedConfig r"

definition getElementSelector :: "dom_element \<Rightarrow> string" where
  "getElementSelector element = (if el_id element \<noteq> [] then ''#'' @ el_id element else [])"

text \<open>
  The three handlers. The messages of the \<^verbatim>\<open>onError\<close> closures are Chinese in the source
  and are given here in English.
\<close>

definition handleClick :: "dom_event \<Rightarrow> recorder \<Rightarrow> recorder" where
  "handleClick event r =
     (if isFirstClick r then r\<lparr>isFirstClick := False\<rparr>
      else
        (let selector = getElementSelector (ev_target event);
             cfg = \<lparr>c_selector = selector, c_type = CLICK, c_value = None,
                    c_waitBefore = Some 200, c_retries = Some 2,
                    c_onError = Some (ConsoleReporter (''click '' @ selector @ '' failed:''))\<rparr>
         in r\<lparr>recordedConfig := recordedConfig r @ [cfg]\<rparr>))"

definition handleInput :: "dom_event \<Rightarrow> recorder \<Rightarrow> recorder" where
  "handleInput event r =
     (let selector = getElementSelector (ev_target event);
          cfg = \<lparr>c_selector = selector, c_type = INPUT,
                 c_value = Some (el_value (ev_target event)),
                 c_waitBefore = Some 200, c_retries = Some 2,
                 c_onError = Some (ConsoleReporter (''input to '' @ selector @ '' failed:''))\<rparr>
      in r\<lparr>recordedConfig := recordedConfig r @ [cfg]\<rparr>)"

definition handleFocus :: "dom_event \<Rightarrow> recorder \<Rightarrow> recorder" where
  "handleFocus event r =
     (let selector = getElementSelector (ev_target event);
          cfg = \<lparr>c_selector = selector, c_type = FOCUS, c_value = None,
                 c_waitBefore = Some 200, c_retries = Some 2,
                 c_onError = Some (ConsoleReporter (''focus '' @ selector @ '' failed:''))\<rparr>
      in r\<lparr>recordedConfig := recordedConfig r @ [cfg]\<rparr>)"

fun call_handler :: "handler \<Rightarrow> dom_event \<Rightarrow> recorder \<Rightarrow> recorder" where
  "call_handler HandleClick = handleClick"
| "call_handler HandleInput = handleInput"
| "call_handler HandleFocus = handleFocus"

text \<open>
  The document delivers an event to the listeners added for its type, in the order they
  were added (the list is the one at the time of the dispatch).
\<close>

definition dispatch :: "dom_event \<Rightarrow> recorder \<Rightarrow> recorder" where
  "dispatch event r =
     fold (\<lambda>(t, handler) r'. if t = ev_type event then call_handler handler event r' else r')
       (documentListeners r) r"

definition observe :: "dom_event list \<Rightarrow> recorder \<Rightarrow> recorder" where
  "observe events r = fold dispatch events r"

section \<open>A page to run the engine on\<close>

text \<open>
  A small concrete host: \<^verbatim>\<open>#a\<close> is always there and a click on it removes \<^verbatim>\<open>#b\<close>;
  \<^verbatim>\<open>#late\<close> appears once the page's pending jobs have run; every operation on \<^verbatim>\<open>#bad\<close>
  throws; the empty selector is a syntax error; callback \<open>0\<close> returns and every other
  callback throws.
\<close>

record demo_page =
  ticks :: nat
  b_present :: bool

definition demo_host :: "demo_page host" where
  "demo_host =
     \<lparr>querySelector = (\<lambda>p s.
         if s = ''#a'' then Found 1
         else if s = ''#b'' then (if b_present p then Found 2 else Null)
         else if s = ''#late'' then (if 1 \<le> ticks p then Found 3 else Null)
         else if s = ''#bad'' then Found 4
         else if s = [] then Threw (HostFault 0)
         else Null),
       operate = (\<lambda>a el p.
         if el = 4 then (Some (HostFault 1), p)
         else if el = 1 \<and> a = Click then (None, p\<lparr>b_present := False\<rparr>)
         else (None, p)),
       elapse = (\<lambda>ms p. p),
       yield = (\<lambda>p. p\<lparr>ticks := Suc (ticks p)\<rparr>),
       callback = (\<lambda>n e p. (if n = 0 then None else Some (HostFault n), p))\<rparr>"

definition demo_world :: "demo_page world" where
  "demo_world = \<lparr>page = \<lparr>ticks = 0, b_present = True\<rparr>, trace = []\<rparr>"

text \<open>A descriptor as the recorder writes it, here for a click on \<^verbatim>\<open>#bad\<close>.\<close>

definition recorded_click :: config where
  "recorded_click =
     \<lparr>c_selector = ''#bad'', c_type = CLICK, c_value = None, c_waitBefore = Some 200,
      c_retries = Some 2, c_onError = Some (ConsoleReporter ''click #bad failed:'')\<rparr>"

text \<open>A descriptor with the two required properties only.\<close>

definition simple_config :: "string \<Rightarrow> string \<Rightarrow> config" where
  "simple_config selector type =
     \<lparr>c_selector = selector, c_type = type, c_value = None, c_waitBefore = None,
      c_retries = None, c_onError = None\<rparr>"

text \<open>A descriptor of a kind the factory does not know.\<close>

definition hover_config :: config where
  "hover_config =
     \<lparr>c_selector = ''#a'', c_type = ''hover'', c_value = None, c_waitBefore = None,
      c_retries = Some 2, c_onError = Some (ConsoleReporter ''hover #a failed:'')\<rparr>"

text \<open>A click on an element that appears late, with one retry and no observer.\<close>

definition late_click :: config where
  "late_click =
     \<lparr>c_selector = ''#late'', c_type = CLICK, c_value = None, c_waitBefore = None,
      c_retries = Some 1, c_onError = None\<rparr>"

text \<open>
  The same page with time: \<^verbatim>\<open>#late\<close> is also there after a wait. And a click on \<^verbatim>\<open>#late\<close>
  that waits first.
\<close>

definition slow_host :: "demo_page host" where
  "slow_host = demo_host\<lparr>elapse := (\<lambda>ms p. p\<lparr>ticks := ticks p + nat ms\<rparr>)\<rparr>"

definition late_click_delayed :: config where
  "late_click_delayed =
     \<lparr>c_selector = ''#late'', c_type = CLICK, c_value = None, c_waitBefore = Some 5,
      c_retries = Some 1, c_onError = None\<rparr>"

text \<open>A descriptor of an unknown kind whose selector matches nothing.\<close>

definition missing_hover :: config where
  "missing_hover =
     \<lparr>c_selector = ''#missing'', c_type = ''hover'', c_value = None, c_waitBefore = None,
      c_retries = Some 2, c_onError = Some (ConsoleReporter ''hover #missing failed:'')\<rparr>"

text \<open>A descriptor whose selector matches nothing.\<close>

definition missing_focus :: config where
  "missing_focus =
     \<lparr>c_selector = ''#missing'', c_type = FOCUS, c_value = None, c_waitBefore = None,
      c_retries = Some 2, c_onError = Some (ConsoleReporter ''focus #missing failed:'')\<rparr>"

section \<open>Notions of the specification\<close>

text \<open>
  The element operation of a descriptor, for the four kinds the factory knows: the one
  that the closure it returns invokes.
\<close>

definition descriptor_primitive :: "config \<Rightarrow> primitive option" where
  "descriptor_primitive cfg =
     (if c_type cfg = CLICK then Some Click
      else if c_type cfg = INPUT then Some (SetValue (default_to [] (c_value cfg)))
      else if c_type cfg = FOCUS then Some Focus
      else if c_type cfg = READ_TEXT then Some ReadText
      else None)"

fun resolves :: "lookup \<Rightarrow> bool" where
  "resolves (Found el) = True"
| "resolves r = False"

text \<open>Among the first \<open>k\<close> attempts of a descriptor, those whose lookup found an element.\<close>

definition resolved_attempts :: "'p host \<Rightarrow> config \<Rightarrow> 'p world \<Rightarrow> nat \<Rightarrow> nat" where
  "resolved_attempts h cfg w k =
     length (filter
       (\<lambda>j. resolves
          (querySelector h (page (attempt_world h (config_thunk h cfg) w j)) (c_selector cfg)))
       [0..<k])"

text \<open>The definitions to unfold when a run is evaluated on the concrete page.\<close>

lemmas run_defs =
  performActionByConfig_def withRetry_def withRetry_loop.simps findAndPerformActionByType_def
  generateActionByType_def findAndPerformAction_def findAndPerformAction_try_def
  invoke_primitive_def wait_def wait_called_def wait_fired_def suspend_def emit_def
  CLICK_def INPUT_def FOCUS_def READ_TEXT_def demo_host_def demo_world_def Let_def
  count_events_def

section \<open>A recording session\<close>

text \<open>The listeners of the document once \<^verbatim>\<open>startRecording\<close> has run on a new recorder.\<close>

definition started_listeners :: "(string \<times> handler) list" where
  "started_listeners =
     [(''click'', HandleClick), (''input'', HandleInput), (''focus'', HandleFocus)]"

text \<open>Two events: typing \<^verbatim>\<open>bob\<close> into \<^verbatim>\<open>#name\<close>, and a click on \<^verbatim>\<open>#go\<close>.\<close>

definition input_name :: dom_event where
  "input_name = \<lparr>ev_type = ''input'', ev_target = \<lparr>el_id = ''name'', el_value = ''bob''\<rparr>\<rparr>"

definition click_go :: dom_event where
  "click_go = \<lparr>ev_type = ''click'', ev_target = \<lparr>el_id = ''go'', el_value = []\<rparr>\<rparr>"

section \<open>Runs of a batch\<close>

text \<open>The settled state of a run whose promise has the given outcome.\<close>

fun outcome_task :: "error + bool \<Rightarrow> task" where
  "outcome_task (Inr b) = Fulfilled b"
| "outcome_task (Inl e) = Rejected e"

text \<open>A run that is alone: \<open>m\<close> steps of one descriptor, from its call.\<close>

definition task_run :: "'p host \<Rightarrow> config \<Rightarrow> task \<times> 'p world \<Rightarrow> task \<times> 'p world" where
  "task_run h cfg = (\<lambda>(t, v). task_step h cfg t v)"

definition run_alone :: "'p host \<Rightarrow> config \<Rightarrow> nat \<Rightarrow> 'p world \<Rightarrow> task \<times> 'p world" where
  "run_alone h cfg m w = (task_run h cfg ^^ m) (Start, w)"

text \<open>The batch after the steps of a schedule.\<close>

definition run_batch :: "'p host \<Rightarrow> config list \<Rightarrow> nat list \<Rightarrow> 'p world \<Rightarrow> 'p batch" where
  "run_batch h cfgs sched w = fold (batch_step h cfgs) sched (start_batch cfgs w)"

text \<open>
  Descriptor \<open>k\<close> of a batch is unaffected by the others, with respect to what \<open>view\<close>
  shows of the world: each step of its run depends on the world through \<open>view\<close> only,
  and no step of another descriptor's run changes what \<open>view\<close> shows.
\<close>

definition unaffected :: "'p host \<Rightarrow> config list \<Rightarrow> nat \<Rightarrow> ('p world \<Rightarrow> 'v) \<Rightarrow> bool" where
  "unaffected h cfgs k view =
     ((\<forall>t v v'. view v = view v' \<longrightarrow>
         fst (task_step h (cfgs ! k) t v) = fst (task_step h (cfgs ! k) t v') \<and>
         view (snd (task_step h (cfgs ! k) t v)) = view (snd (task_step h (cfgs ! k) t v'))) \<and>
      (\<forall>j t v. j < length cfgs \<and> j \<noteq> k \<longrightarrow>
         view (snd (task_step h (cfgs ! j) t v)) = view v))"

text \<open>No observer of the batch throws.\<close>

definition observers_return :: "'p host \<Rightarrow> config list \<Rightarrow> bool" where
  "observers_return h cfgs =
     (\<forall>cfg \<in> set cfgs. \<forall>ob e v. c_onError cfg = Some ob \<longrightarrow> fst (notify h ob e v) = None)"

text \<open>A bound on the steps a run still takes before its promise is settled.\<close>

fun remaining :: "config \<Rightarrow> task \<Rightarrow> nat" where
  "remaining cfg Start =
     nat (default_to 0 (c_retries cfg) + 1) + 1 +
     (if 0 < default_to 0 (c_waitBefore cfg) then 1 else 0)"
| "remaining cfg Sleeping = nat (default_to 0 (c_retries cfg) + 1) + 1"
| "remaining cfg (Pending i r) = nat (default_to 0 (c_retries cfg) - i) + 1"
| "remaining cfg (Fulfilled b) = 0"
| "remaining cfg (Rejected e) = 0"

text \<open>
  The run of descriptor \<open>k\<close> inside a batch: the worlds the batch was in each time the
  schedule let run \<open>k\<close> take a step, and the state that the steps of a descriptor lead to
  from its call when they are taken in these worlds.
\<close>

definition worlds_met ::
  "'p host \<Rightarrow> config list \<Rightarrow> nat list \<Rightarrow> 'p world \<Rightarrow> nat \<Rightarrow> 'p world list" where
  "worlds_met h cfgs sched w k =
     map (\<lambda>n. shared (run_batch h cfgs (take n sched) w))
       (filter (\<lambda>n. sched ! n = k) [0..<length sched])"

definition own_steps :: "'p host \<Rightarrow> config \<Rightarrow> 'p world list \<Rightarrow> task" where
  "own_steps h cfg vs = fold (\<lambda>v t. fst (task_step h cfg t v)) vs Start"

text \<open>Two descriptors for the concrete page.\<close>

definition focus_b :: config where
  "focus_b = simple_config ''#b'' FOCUS"

definition click_a :: config where
  "click_a = simple_config ''#a'' CLICK"

lemmas batch_defs =
  performActionsByConfigs_def start_batch_def batch_step_def promise_all_def
  enter_iteration_def config_thunk_def sequential_schedule_def steps_needed_def
  simple_config_def focus_b_def click_a_def late_click_def

section \<open>Basic facts about the trace\<close>

lemma page_emit [simp]: "page (emit e w) = page w"
  by (simp add: emit_def)

lemma trace_emit [simp]: "trace (emit e w) = trace w @ [e]"
  by (simp add: emit_def)

lemma trace_suspend [simp]: "trace (suspend h w) = trace w"
  by (simp add: suspend_def)

lemma page_suspend [simp]: "page (suspend h w) = yield h (page w)"
  by (simp add: suspend_def)

lemma trace_wait [simp]: "trace (wait h ms w) = trace w @ [EvWait ms]"
  by (simp add: wait_def wait_fired_def wait_called_def)

lemma trace_invoke_primitive:
  "trace (snd (invoke_primitive h a el w)) = trace w @ [EvPrimitive a el]"
  by (simp add: invoke_primitive_def split: prod.splits)

lemma trace_notify: "trace (snd (notify h ob e w)) = trace w @ [EvOnError ob e]"
  by (cases ob) (simp_all split: prod.splits)

lemma extends_refl [simp]: "extends Q w w"
  by (simp add: extends_def)

lemma extends_trans: "extends Q w w1 \<Longrightarrow> extends Q w1 w2 \<Longrightarrow> extends Q w w2"
  by (auto simp: extends_def)

lemma extends_suspend [simp]: "extends Q w (suspend h w)"
  by (simp add: extends_def)

lemma extends_emit: "Q e \<Longrightarrow> extends Q w (emit e w)"
  by (simp add: extends_def)

lemma extends_notify: "Q (EvOnError ob e) \<Longrightarrow> extends Q w (snd (notify h ob e w))"
  by (simp add: extends_def trace_notify)

lemma extends_findAndPerformAction:
  assumes "Q (EvQuery selector)" "\<And>e. Q (EvConsoleError e)"
    and "\<And>el v. extends Q v (snd (action el v))"
  shows "extends Q w (snd (findAndPerformAction h selector action w))"
proof -
  let ?w0 = "emit (EvQuery selector) w"
  have q: "extends Q w ?w0"
    using assms(1) by (rule extends_emit)
  show ?thesis
  proof (cases "querySelector h (page w) selector")
    case (Threw e)
    then have "snd (findAndPerformAction h selector action w) = emit (EvConsoleError e) ?w0"
      by (simp add: findAndPerformAction_def findAndPerformAction_try_def)
    then show ?thesis
      using q extends_emit [of Q "EvConsoleError e" ?w0] assms(2) by (auto intro: extends_trans)
  next
    case Null
    then have "snd (findAndPerformAction h selector action w) = ?w0"
      by (simp add: findAndPerformAction_def findAndPerformAction_try_def)
    then show ?thesis using q by simp
  next
    case (Found el)
    obtain r w1 where a: "action el ?w0 = (r, w1)" by (cases "action el ?w0")
    have e1: "extends Q ?w0 w1" using assms(3) [of ?w0 el] a by simp
    show ?thesis
    proof (cases r)
      case None
      then have "snd (findAndPerformAction h selector action w) = w1"
        using Found a by (simp add: findAndPerformAction_def findAndPerformAction_try_def)
      then show ?thesis using q e1 by (auto intro: extends_trans)
    next
      case (Some e)
      then have "snd (findAndPerformAction h selector action w) = emit (EvConsoleError e) w1"
        using Found a by (simp add: findAndPerformAction_def findAndPerformAction_try_def)
      then show ?thesis
        using q e1 extends_emit [of Q "EvConsoleError e" w1] assms(2) by (auto intro: extends_trans)
    qed
  qed
qed

lemma extends_invoke_primitive:
  "Q (EvPrimitive a el) \<Longrightarrow> extends Q w (snd (invoke_primitive h a el w))"
  by (simp add: extends_def trace_invoke_primitive)

lemma extends_findAndPerformActionByType:
  assumes "Q (EvQuery selector)" "\<And>e. Q (EvConsoleError e)" "\<And>a el. Q (EvPrimitive a el)"
  shows "extends Q w (snd (findAndPerformActionByType h selector type val w))"
proof (cases "generateActionByType h type (Some (default_to [] val))")
  case (Inl e)
  then show ?thesis by (simp add: findAndPerformActionByType_def)
next
  case (Inr action)
  then obtain a where "action = invoke_primitive h a"
    by (auto simp: generateActionByType_def split: if_splits)
  then have "\<And>el v. extends Q v (snd (action el v))"
    using assms(3) by (simp add: extends_invoke_primitive)
  then have "extends Q w (snd (findAndPerformAction h selector action w))"
    using assms(1,2) by (intro extends_findAndPerformAction) auto
  then show ?thesis using Inr by (simp add: findAndPerformActionByType_def)
qed


lemma loop_exit: "\<not> i \<le> retries \<Longrightarrow> withRetry_loop h action retries onError i w = (Inr False, w)"
  by simp

lemma loop_success:
  "i \<le> retries \<Longrightarrow> action w = (Inr True, w1) \<Longrightarrow>
   withRetry_loop h action retries onError i w = (Inr True, suspend h w1)"
  by simp

lemma loop_failure:
  "i \<le> retries \<Longrightarrow> action w = (Inr False, w1) \<Longrightarrow>
   withRetry_loop h action retries onError i w =
     withRetry_loop h action retries onError (i + 1) (suspend h w1)"
  by simp

lemma loop_thrown_unobserved:
  "i \<le> retries \<Longrightarrow> action w = (Inl e, w1) \<Longrightarrow>
   withRetry_loop h action retries None i w =
     withRetry_loop h action retries None (i + 1) (suspend h w1)"
  by simp

lemma loop_thrown_observed:
  "i \<le> retries \<Longrightarrow> action w = (Inl e, w1) \<Longrightarrow>
   notify h ob e (suspend h w1) = (None, w2) \<Longrightarrow>
   withRetry_loop h action retries (Some ob) i w =
     withRetry_loop h action retries (Some ob) (i + 1) w2"
  by simp

lemma loop_thrown_rethrown:
  "i \<le> retries \<Longrightarrow> action w = (Inl e, w1) \<Longrightarrow>
   notify h ob e (suspend h w1) = (Some e', w2) \<Longrightarrow>
   withRetry_loop h action retries (Some ob) i w = (Inl e', w2)"
  by simp

declare withRetry_loop.simps [simp del]

lemma extends_withRetry_loop:
  assumes thunk: "\<And>v. extends Q v (snd (action v))"
    and obs: "\<And>ob e. onError = Some ob \<Longrightarrow> Q (EvOnError ob e)"
  shows "extends Q w (snd (withRetry_loop h action retries onError i w))"
proof (induction "nat (retries + 1 - i)" arbitrary: i w)
  case 0
  then have "\<not> i \<le> retries" by simp
  then show ?case by (simp add: loop_exit)
next
  case (Suc n)
  then have le: "i \<le> retries" and n: "n = nat (retries + 1 - (i + 1))" by simp_all
  obtain r w1 where a: "action w = (r, w1)" by (cases "action w")
  have e1: "extends Q w (suspend h w1)"
    using thunk [of w] a by (auto intro: extends_trans [OF _ extends_suspend])
  note IH = Suc.hyps(1) [OF n]
  show ?case
  proof (cases r)
    case (Inr b)
    show ?thesis
    proof (cases b)
      case True
      then show ?thesis using loop_success [OF le, of action w w1 h onError] a Inr e1 by simp
    next
      case False
      then show ?thesis
        using loop_failure [OF le, of action w w1 h onError] a Inr IH [of "suspend h w1"] e1
        by (auto intro: extends_trans)
    qed
  next
    case (Inl e)
    show ?thesis
    proof (cases onError)
      case None
      then show ?thesis
        using loop_thrown_unobserved [OF le, of action w e w1 h] a Inl IH [of "suspend h w1"] e1
        by (auto intro: extends_trans)
    next
      case (Some ob)
      obtain r' w2 where nt: "notify h ob e (suspend h w1) = (r', w2)"
        by (cases "notify h ob e (suspend h w1)")
      have e2: "extends Q w w2"
        using extends_notify [of Q ob e "suspend h w1" h] obs [OF Some] nt e1
        by (auto intro: extends_trans)
      show ?thesis
      proof (cases r')
        case None
        then show ?thesis
          using loop_thrown_observed [OF le, of action w e w1 h ob w2] a Inl Some nt IH [of w2] e2
          by (auto intro: extends_trans)
      next
        case (Some e')
        then show ?thesis
          using loop_thrown_rethrown [OF le, of action w e w1 h ob e' w2] a Inl \<open>onError = Some ob\<close> nt e2
          by simp
      qed
    qed
  qed
qed

lemma extends_count:
  assumes "extends Q w w'" and "\<And>e. Q e \<Longrightarrow> \<not> P e"
  shows "count_events P w' = count_events P w"
proof -
  obtain evs where t: "trace w' = trace w @ evs" and q: "list_all Q evs"
    using assms(1) by (auto simp: extends_def)
  have "filter P evs = []"
    using q assms(2) by (auto simp: list_all_iff filter_empty_conv)
  then show ?thesis by (simp add: count_events_def t)
qed

lemma performActionByConfig_unfold:
  "performActionByConfig h cfg w =
     withRetry_loop h (config_thunk h cfg) (default_to 0 (c_retries cfg)) (c_onError cfg) 0
       (after_delay h cfg w)"
  by (simp add: performActionByConfig_def config_thunk_def after_delay_def withRetry_def Let_def)

lemma extends_config_thunk:
  assumes "\<And>s. Q (EvQuery s)" "\<And>e. Q (EvConsoleError e)" "\<And>a el. Q (EvPrimitive a el)"
  shows "extends Q w (snd (config_thunk h cfg w))"
  unfolding config_thunk_def using assms by (intro extends_findAndPerformActionByType) auto

lemma retry_loop_of_config_extends:
  assumes "\<And>s. Q (EvQuery s)" "\<And>e. Q (EvConsoleError e)" "\<And>a el. Q (EvPrimitive a el)"
    and "\<And>ob e. c_onError cfg = Some ob \<Longrightarrow> Q (EvOnError ob e)"
  shows "extends Q v
    (snd (withRetry_loop h (config_thunk h cfg) retries (c_onError cfg) i v))"
  using assms by (intro extends_withRetry_loop extends_config_thunk) auto


section \<open>The single-action executor\<close>

text \<open>
  C6. \<^verbatim>\<open>findAndPerformAction\<close> never raises: its promise is always fulfilled with a
  boolean. It is \<^verbatim>\<open>false\<close> when the selector matches no element (the action is not
  invoked: the world only gains the lookup), \<^verbatim>\<open>false\<close> when the action throws (the error
  goes to \<^verbatim>\<open>console.error\<close> and nowhere else), \<^verbatim>\<open>true\<close> when the element is found and the
  action returns. An exception of \<^verbatim>\<open>querySelector\<close> itself is caught the same way.
\<close>

theorem findAndPerformAction_never_raises:
  "(\<exists>b. fst (findAndPerformAction h selector action w) = Inr b) \<and>
   (querySelector h (page w) selector = Null \<longrightarrow>
      findAndPerformAction h selector action w = (Inr False, emit (EvQuery selector) w)) \<and>
   (\<forall>el e w1. querySelector h (page w) selector = Found el \<and>
        action el (emit (EvQuery selector) w) = (Some e, w1) \<longrightarrow>
      findAndPerformAction h selector action w = (Inr False, emit (EvConsoleError e) w1)) \<and>
   (\<forall>el w1. querySelector h (page w) selector = Found el \<and>
        action el (emit (EvQuery selector) w) = (None, w1) \<longrightarrow>
      findAndPerformAction h selector action w = (Inr True, w1)) \<and>
   (\<forall>e. querySelector h (page w) selector = Threw e \<longrightarrow>
      findAndPerformAction h selector action w =
        (Inr False, emit (EvConsoleError e) (emit (EvQuery selector) w)))"
  by (auto simp: findAndPerformAction_def findAndPerformAction_try_def Let_def
      split: prod.splits sum.splits lookup.splits option.splits)

theorem findAndPerformAction_never_raises_witness:
  "findAndPerformAction demo_host ''#missing'' (invoke_primitive demo_host Click) demo_world =
     (Inr False, emit (EvQuery ''#missing'') demo_world) \<and>
   findAndPerformAction demo_host ''#bad'' (invoke_primitive demo_host Click) demo_world =
     (Inr False, emit (EvConsoleError (HostFault 1))
        (emit (EvPrimitive Click 4) (emit (EvQuery ''#bad'') demo_world))) \<and>
   findAndPerformAction demo_host ''#a'' (invoke_primitive demo_host Focus) demo_world =
     (Inr True, emit (EvPrimitive Focus 1) (emit (EvQuery ''#a'') demo_world))"
  using findAndPerformAction_never_raises
      [of demo_host "''#missing''" "invoke_primitive demo_host Click" demo_world]
    findAndPerformAction_never_raises
      [of demo_host "''#bad''" "invoke_primitive demo_host Click" demo_world]
    findAndPerformAction_never_raises
      [of demo_host "''#a''" "invoke_primitive demo_host Focus" demo_world]
  by (simp add: demo_host_def invoke_primitive_def emit_def)

section \<open>The retry wrapper\<close>

text \<open>
  C10. With a negative \<^verbatim>\<open>retries\<close> the loop of \<^verbatim>\<open>withRetry\<close> is not entered: the result is
  \<^verbatim>\<open>false\<close> and the world is the one it was called in, whatever the thunk and the
  observer would do to it, so neither was invoked.
\<close>

theorem withRetry_negative_retries:
  "retries < 0 \<Longrightarrow> withRetry h action retries onError w = (Inr False, w)"
  by (simp add: withRetry_def loop_exit)

theorem withRetry_negative_retries_witness:
  "withRetry demo_host (config_thunk demo_host recorded_click) (- 1)
     (Some (ConsoleReporter ''x'')) demo_world = (Inr False, demo_world)"
  using withRetry_negative_retries [of "- 1"] by simp

section \<open>Descriptors\<close>

text \<open>
  C8. A descriptor without \<^verbatim>\<open>value\<close>, \<^verbatim>\<open>waitBefore\<close> or \<^verbatim>\<open>retries\<close> runs as the same
  descriptor with the empty string, \<open>0\<close> and \<open>0\<close> there; the factory and
  \<^verbatim>\<open>findAndPerformActionByType\<close> take the empty string for a missing value as well; and a
  descriptor without \<^verbatim>\<open>onError\<close> invokes no observer.
\<close>

theorem missing_fields_take_defaults:
  "performActionByConfig h (cfg\<lparr>c_value := None\<rparr>) w =
     performActionByConfig h (cfg\<lparr>c_value := Some []\<rparr>) w \<and>
   performActionByConfig h (cfg\<lparr>c_waitBefore := None\<rparr>) w =
     performActionByConfig h (cfg\<lparr>c_waitBefore := Some 0\<rparr>) w \<and>
   performActionByConfig h (cfg\<lparr>c_retries := None\<rparr>) w =
     performActionByConfig h (cfg\<lparr>c_retries := Some 0\<rparr>) w \<and>
   generateActionByType h type None = generateActionByType h type (Some []) \<and>
   findAndPerformActionByType h selector type None =
     findAndPerformActionByType h selector type (Some []) \<and>
   count_events is_onError (snd (performActionByConfig h (cfg\<lparr>c_onError := None\<rparr>) w)) =
     count_events is_onError w"
proof -
  let ?c = "cfg\<lparr>c_onError := None\<rparr>"
  have "extends (\<lambda>e. \<not> is_onError e) (after_delay h ?c w)
     (snd (withRetry_loop h (config_thunk h ?c) (default_to 0 (c_retries ?c)) (c_onError ?c) 0
       (after_delay h ?c w)))"
    by (rule retry_loop_of_config_extends) simp_all
  moreover have "extends (\<lambda>e. \<not> is_onError e) w (after_delay h ?c w)"
    by (simp add: after_delay_def extends_def)
  ultimately have "extends (\<lambda>e. \<not> is_onError e) w (snd (performActionByConfig h ?c w))"
    unfolding performActionByConfig_unfold by (rule extends_trans [rotated])
  then have "count_events is_onError (snd (performActionByConfig h ?c w)) = count_events is_onError w"
    by (rule extends_count) simp
  then show ?thesis
    by (simp add: performActionByConfig_def generateActionByType_def
        findAndPerformActionByType_def fun_eq_iff)
qed

theorem missing_fields_take_defaults_witness:
  "performActionByConfig demo_host (recorded_click\<lparr>c_value := None\<rparr>) demo_world =
     performActionByConfig demo_host (recorded_click\<lparr>c_value := Some []\<rparr>) demo_world \<and>
   performActionByConfig demo_host (recorded_click\<lparr>c_waitBefore := None\<rparr>) demo_world =
     performActionByConfig demo_host (recorded_click\<lparr>c_waitBefore := Some 0\<rparr>) demo_world \<and>
   performActionByConfig demo_host (recorded_click\<lparr>c_retries := None\<rparr>) demo_world =
     performActionByConfig demo_host (recorded_click\<lparr>c_retries := Some 0\<rparr>) demo_world \<and>
   count_events is_onError
     (snd (performActionByConfig demo_host (recorded_click\<lparr>c_onError := None\<rparr>) demo_world)) = 0"
  using missing_fields_take_defaults [of demo_host recorded_click demo_world]
  by (simp add: count_events_def demo_world_def)

text \<open>The loop of \<^verbatim>\<open>withRetry\<close> and the thunk never consult the timer.\<close>

lemma suspend_elapse [simp]: "suspend (h\<lparr>elapse := f\<rparr>) = suspend h"
  by (simp add: suspend_def fun_eq_iff)

lemma notify_elapse [simp]: "notify (h\<lparr>elapse := f\<rparr>) ob e w = notify h ob e w"
  by (cases ob) simp_all

lemma invoke_primitive_elapse [simp]: "invoke_primitive (h\<lparr>elapse := f\<rparr>) = invoke_primitive h"
  by (simp add: invoke_primitive_def fun_eq_iff)

lemma config_thunk_elapse [simp]: "config_thunk (h\<lparr>elapse := f\<rparr>) cfg = config_thunk h cfg"
  by (simp add: config_thunk_def findAndPerformActionByType_def generateActionByType_def
      findAndPerformAction_def findAndPerformAction_try_def fun_eq_iff)

lemma withRetry_loop_elapse:
  "withRetry_loop (h\<lparr>elapse := f\<rparr>) action retries onError i w =
   withRetry_loop h action retries onError i w"
proof (induction "nat (retries + 1 - i)" arbitrary: i w)
  case 0
  then show ?case by (simp add: loop_exit)
next
  case (Suc n)
  then have le: "i \<le> retries" and n: "n = nat (retries + 1 - (i + 1))" by simp_all
  note IH = Suc.hyps(1) [OF n]
  show ?case
    using le IH
    by (subst (1 2) withRetry_loop.simps)
      (auto split: prod.splits sum.splits option.splits bool.splits)
qed

text \<open>
  C7. \<^verbatim>\<open>performActionByConfig\<close> is the retry loop run in the world after the delay. When
  \<^verbatim>\<open>waitBefore\<close> is positive that world is the one in which the timer of \<^verbatim>\<open>wait(waitBefore)\<close>
  has fired: the page is the page \<^verbatim>\<open>waitBefore\<close> milliseconds later, and the first attempt
  starts there. When \<^verbatim>\<open>waitBefore\<close> is \<open>0\<close> or missing it is the world of the call,
  untouched. The retry loop itself does the same whatever the timer would do to the page,
  so no time is waited between attempts; and of the events of the run only the first can
  be a wait.
\<close>

theorem delay_once_before_first_attempt:
  "performActionByConfig h cfg w =
     withRetry h (config_thunk h cfg) (default_to 0 (c_retries cfg)) (c_onError cfg)
       (after_delay h cfg w) \<and>
   after_delay h cfg w =
     (if 0 < default_to 0 (c_waitBefore cfg)
      then \<lparr>page = elapse h (default_to 0 (c_waitBefore cfg)) (page w),
            trace = trace w @ [EvWait (default_to 0 (c_waitBefore cfg))]\<rparr>
      else w) \<and>
   withRetry (h\<lparr>elapse := f\<rparr>) (config_thunk (h\<lparr>elapse := f\<rparr>) cfg)
       (default_to 0 (c_retries cfg)) (c_onError cfg) v =
     withRetry h (config_thunk h cfg) (default_to 0 (c_retries cfg)) (c_onError cfg) v \<and>
   (\<exists>evs. trace (snd (performActionByConfig h cfg w)) =
       trace w @
       (if 0 < default_to 0 (c_waitBefore cfg) then [EvWait (default_to 0 (c_waitBefore cfg))]
        else []) @ evs \<and>
     list_all (\<lambda>e. \<not> is_wait e) evs)"
proof -
  have "extends (\<lambda>e. \<not> is_wait e) (after_delay h cfg w) (snd (performActionByConfig h cfg w))"
    unfolding performActionByConfig_unfold by (rule retry_loop_of_config_extends) simp_all
  then obtain evs where "trace (snd (performActionByConfig h cfg w)) = trace (after_delay h cfg w) @ evs"
    and "list_all (\<lambda>e. \<not> is_wait e) evs"
    by (auto simp: extends_def)
  then have "\<exists>evs. trace (snd (performActionByConfig h cfg w)) =
       trace w @
       (if 0 < default_to 0 (c_waitBefore cfg) then [EvWait (default_to 0 (c_waitBefore cfg))]
        else []) @ evs \<and>
     list_all (\<lambda>e. \<not> is_wait e) evs"
    by (intro exI [of _ evs]) (simp add: after_delay_def)
  moreover have "after_delay h cfg w =
     (if 0 < default_to 0 (c_waitBefore cfg)
      then \<lparr>page = elapse h (default_to 0 (c_waitBefore cfg)) (page w),
            trace = trace w @ [EvWait (default_to 0 (c_waitBefore cfg))]\<rparr>
      else w)"
    by (simp add: after_delay_def wait_def wait_fired_def wait_called_def emit_def)
  ultimately show ?thesis
    by (simp add: performActionByConfig_unfold withRetry_def withRetry_loop_elapse)
qed

theorem delay_once_before_first_attempt_witness:
  "performActionByConfig slow_host late_click_delayed demo_world =
     (Inr True,
      \<lparr>page = \<lparr>ticks = 6, b_present = True\<rparr>,
       trace = [EvWait 5, EvQuery ''#late'', EvPrimitive Click 3]\<rparr>) \<and>
   after_delay slow_host late_click_delayed demo_world =
     \<lparr>page = \<lparr>ticks = 5, b_present = True\<rparr>, trace = [EvWait 5]\<rparr> \<and>
   (\<exists>evs. trace (snd (performActionByConfig slow_host late_click_delayed demo_world)) =
      EvWait 5 # evs \<and> list_all (\<lambda>e. \<not> is_wait e) evs)"
proof -
  note t = delay_once_before_first_attempt
    [of slow_host late_click_delayed demo_world "\<lambda>ms p. p" demo_world]
  have w: "default_to 0 (c_waitBefore late_click_delayed) = 5"
    by (simp add: late_click_delayed_def)
  have "after_delay slow_host late_click_delayed demo_world =
     \<lparr>page = \<lparr>ticks = 5, b_present = True\<rparr>, trace = [EvWait 5]\<rparr>"
    using t [THEN conjunct2, THEN conjunct1]
    by (simp add: w slow_host_def demo_host_def demo_world_def)
  moreover have "\<exists>evs. trace (snd (performActionByConfig slow_host late_click_delayed demo_world)) =
      EvWait 5 # evs \<and> list_all (\<lambda>e. \<not> is_wait e) evs"
    using t [THEN conjunct2, THEN conjunct2, THEN conjunct2]
    by (simp add: w demo_world_def)
  moreover have "performActionByConfig slow_host late_click_delayed demo_world =
     (Inr True,
      \<lparr>page = \<lparr>ticks = 6, b_present = True\<rparr>,
       trace = [EvWait 5, EvQuery ''#late'', EvPrimitive Click 3]\<rparr>)"
    by (simp add: run_defs slow_host_def late_click_delayed_def)
  ultimately show ?thesis by simp
qed

section \<open>Descriptors of an unknown kind\<close>

lemma generateActionByType_unsupported:
  "type \<notin> {CLICK, INPUT, FOCUS, READ_TEXT} \<Longrightarrow>
   generateActionByType h type val = Inl (UnsupportedType type)"
  by (simp add: generateActionByType_def)

lemma config_thunk_unsupported:
  "c_type cfg \<notin> {CLICK, INPUT, FOCUS, READ_TEXT} \<Longrightarrow>
   config_thunk h cfg v = (Inl (UnsupportedType (c_type cfg)), v)"
  by (simp add: config_thunk_def findAndPerformActionByType_def generateActionByType_unsupported)

lemma loop_always_thrown_unobserved:
  assumes "\<And>v. action v = (Inl e, v)"
  shows "fst (withRetry_loop h action retries None i w) = Inr False \<and>
         trace (snd (withRetry_loop h action retries None i w)) = trace w"
proof (induction "nat (retries + 1 - i)" arbitrary: i w)
  case 0
  then show ?case by (simp add: loop_exit)
next
  case (Suc n)
  then have le: "i \<le> retries" and n: "n = nat (retries + 1 - (i + 1))" by simp_all
  have "withRetry_loop h action retries None i w =
      withRetry_loop h action retries None (i + 1) (suspend h w)"
    using le assms [of w] by (rule loop_thrown_unobserved)
  then show ?case
    using Suc.hyps(1) [OF n, of "suspend h w"] by simp
qed

lemma loop_always_thrown_observed:
  assumes "\<And>v. action v = (Inl e, v)" and "\<And>v. fst (notify h ob e v) = None"
  shows "fst (withRetry_loop h action retries (Some ob) i w) = Inr False \<and>
         trace (snd (withRetry_loop h action retries (Some ob) i w)) =
           trace w @ replicate (nat (retries + 1 - i)) (EvOnError ob e)"
proof (induction "nat (retries + 1 - i)" arbitrary: i w)
  case 0
  then show ?case by (simp add: loop_exit)
next
  case (Suc n)
  then have le: "i \<le> retries" and n: "n = nat (retries + 1 - (i + 1))" by simp_all
  obtain w2 where nt: "notify h ob e (suspend h w) = (None, w2)"
    using assms(2) [of "suspend h w"] by (cases "notify h ob e (suspend h w)") auto
  have t2: "trace w2 = trace w @ [EvOnError ob e]"
    using trace_notify [of h ob e "suspend h w"] nt by simp
  have "withRetry_loop h action retries (Some ob) i w =
      withRetry_loop h action retries (Some ob) (i + 1) w2"
    using le assms(1) [of w] nt by (rule loop_thrown_observed)
  moreover have "nat (retries + 1 - i) = Suc n" using Suc.hyps(2) by simp
  ultimately show ?case
    using Suc.hyps(1) [OF n, of w2] t2 by (simp add: replicate_append_same)
qed

text \<open>
  C1, as the code has it. For a descriptor whose \<^verbatim>\<open>type\<close> is none of the four, the factory
  throws its error, so every attempt fails before the selector is looked up: no lookup and
  no element operation ever happens. But the error is thrown inside the thunk that
  \<^verbatim>\<open>withRetry\<close> calls in its \<^verbatim>\<open>try\<close> block, so the descriptor is not aborted: the loop
  catches the error, hands it to \<^verbatim>\<open>onError\<close>, and goes on, \<^verbatim>\<open>retries + 1\<close> times in all,
  and \<^verbatim>\<open>performActionByConfig\<close> returns \<^verbatim>\<open>false\<close> (when the observer, if there is one,
  returns normally).
\<close>

theorem unsupported_type_is_retried:
  assumes "c_type cfg \<notin> {CLICK, INPUT, FOCUS, READ_TEXT}"
  shows "generateActionByType h (c_type cfg) val = Inl (UnsupportedType (c_type cfg)) \<and>
    config_thunk h cfg v = (Inl (UnsupportedType (c_type cfg)), v) \<and>
    count_events is_primitive (snd (performActionByConfig h cfg w)) = count_events is_primitive w \<and>
    count_events is_query (snd (performActionByConfig h cfg w)) = count_events is_query w \<and>
    (c_onError cfg = None \<longrightarrow>
       fst (performActionByConfig h cfg w) = Inr False \<and>
       trace (snd (performActionByConfig h cfg w)) = trace (after_delay h cfg w)) \<and>
    (\<forall>ob. c_onError cfg = Some ob \<and>
        (\<forall>u. fst (notify h ob (UnsupportedType (c_type cfg)) u) = None) \<longrightarrow>
       fst (performActionByConfig h cfg w) = Inr False \<and>
       trace (snd (performActionByConfig h cfg w)) =
         trace (after_delay h cfg w) @
         replicate (nat (default_to 0 (c_retries cfg) + 1))
           (EvOnError ob (UnsupportedType (c_type cfg))))"
proof -
  let ?e = "UnsupportedType (c_type cfg)"
  have thunk: "\<And>u. config_thunk h cfg u = (Inl ?e, u)"
    using assms by (rule config_thunk_unsupported)
  have "extends (\<lambda>e. is_onError e \<or> is_wait e) w (after_delay h cfg w)"
    by (simp add: after_delay_def extends_def)
  moreover have "extends (\<lambda>e. is_onError e \<or> is_wait e) (after_delay h cfg w)
      (snd (performActionByConfig h cfg w))"
    unfolding performActionByConfig_unfold
    by (rule extends_withRetry_loop) (simp_all add: thunk)
  ultimately have ext: "extends (\<lambda>e. is_onError e \<or> is_wait e) w (snd (performActionByConfig h cfg w))"
    by (rule extends_trans)
  have prim: "count_events is_primitive (snd (performActionByConfig h cfg w)) = count_events is_primitive w"
    using ext by (rule extends_count) (auto elim: is_onError.elims is_wait.elims)
  have query: "count_events is_query (snd (performActionByConfig h cfg w)) = count_events is_query w"
    using ext by (rule extends_count) (auto elim: is_onError.elims is_wait.elims)
  have none: "c_onError cfg = None \<Longrightarrow>
       fst (performActionByConfig h cfg w) = Inr False \<and>
       trace (snd (performActionByConfig h cfg w)) = trace (after_delay h cfg w)"
    unfolding performActionByConfig_unfold
    using loop_always_thrown_unobserved [of "config_thunk h cfg" ?e h] thunk by simp
  have some: "\<And>ob. c_onError cfg = Some ob \<Longrightarrow> (\<forall>u. fst (notify h ob ?e u) = None) \<Longrightarrow>
       fst (performActionByConfig h cfg w) = Inr False \<and>
       trace (snd (performActionByConfig h cfg w)) =
         trace (after_delay h cfg w) @ replicate (nat (default_to 0 (c_retries cfg) + 1)) (EvOnError ob ?e)"
    unfolding performActionByConfig_unfold
    using loop_always_thrown_observed [of "config_thunk h cfg" ?e h _ "default_to 0 (c_retries cfg)" 0]
      thunk by simp
  show ?thesis
    using generateActionByType_unsupported [OF assms] thunk prim query none some by blast
qed

theorem unsupported_type_is_retried_witness:
  "generateActionByType demo_host ''hover'' None = Inl (UnsupportedType ''hover'') \<and>
   count_events is_primitive (snd (performActionByConfig demo_host hover_config demo_world)) = 0 \<and>
   count_events is_query (snd (performActionByConfig demo_host hover_config demo_world)) = 0 \<and>
   fst (performActionByConfig demo_host hover_config demo_world) = Inr False \<and>
   trace (snd (performActionByConfig demo_host hover_config demo_world)) =
     replicate 3 (EvOnError (ConsoleReporter ''hover #a failed:'') (UnsupportedType ''hover''))"
  using unsupported_type_is_retried [of hover_config demo_host None demo_world demo_world]
  by (simp add: hover_config_def demo_world_def CLICK_def INPUT_def FOCUS_def READ_TEXT_def
      count_events_def after_delay_def)

text \<open>
  The claim as the specification states it fails: \<^verbatim>\<open>{selector: "#a", type: "hover",
  retries: 2, onError: ...}\<close> is attempted three times and ends in \<^verbatim>\<open>false\<close>, not in an
  error.
\<close>

theorem unsupported_type_not_aborted:
  "c_type hover_config \<notin> {CLICK, INPUT, FOCUS, READ_TEXT} \<and>
   fst (performActionByConfig demo_host hover_config demo_world) = Inr False \<and>
   trace (snd (performActionByConfig demo_host hover_config demo_world)) =
     [EvOnError (ConsoleReporter ''hover #a failed:'') (UnsupportedType ''hover''),
      EvOnError (ConsoleReporter ''hover #a failed:'') (UnsupportedType ''hover''),
      EvOnError (ConsoleReporter ''hover #a failed:'') (UnsupportedType ''hover'')]"
  by (simp add: performActionByConfig_def withRetry_def hover_config_def demo_world_def
      findAndPerformActionByType_def generateActionByType_def CLICK_def INPUT_def FOCUS_def
      READ_TEXT_def withRetry_loop.simps suspend_def emit_def Let_def)

section \<open>Attempts of the retry loop\<close>

lemma attempt_world_0 [simp]: "attempt_world h action w 0 = w"
  by (simp add: attempt_world_def)

lemma attempt_world_Suc:
  "attempt_world h action w (Suc j) = suspend h (snd (action (attempt_world h action w j)))"
  by (simp add: attempt_world_def)

lemma attempt_world_shift:
  "attempt_world h action w (Suc j) = attempt_world h action (suspend h (snd (action w))) j"
  by (simp add: attempt_world_def funpow_Suc_right del: funpow.simps)

lemma loop_skips_failures:
  assumes "\<And>j. j < m \<Longrightarrow> fst (action (attempt_world h action w j)) = Inr False"
    and "i + int m \<le> retries + 1"
  shows "withRetry_loop h action retries onError i w =
         withRetry_loop h action retries onError (i + int m) (attempt_world h action w m)"
  using assms
proof (induction m arbitrary: i w)
  case 0
  then show ?case by simp
next
  case (Suc m)
  let ?w' = "suspend h (snd (action w))"
  have le: "i \<le> retries" using Suc.prems(2) by simp
  have "fst (action w) = Inr False" using Suc.prems(1) [of 0] by simp
  then have a: "action w = (Inr False, snd (action w))" by (cases "action w") simp
  have step: "withRetry_loop h action retries onError i w =
      withRetry_loop h action retries onError (i + 1) ?w'"
    using le a by (rule loop_failure)
  have "withRetry_loop h action retries onError (i + 1) ?w' =
      withRetry_loop h action retries onError (i + 1 + int m) (attempt_world h action ?w' m)"
  proof (rule Suc.IH)
    fix j assume "j < m"
    then show "fst (action (attempt_world h action ?w' j)) = Inr False"
      using Suc.prems(1) [of "Suc j"] by (simp add: attempt_world_shift)
  next
    show "i + 1 + int m \<le> retries + 1" using Suc.prems(2) by simp
  qed
  then show ?case using step by (simp add: attempt_world_shift add.commute add.left_commute)
qed

lemma count_events_attempt_world:
  assumes "\<And>j. j < m \<Longrightarrow>
      count_events P (snd (action (attempt_world h action w j))) =
      count_events P (attempt_world h action w j) + c j"
  shows "count_events P (attempt_world h action w m) = count_events P w + sum_list (map c [0..<m])"
  using assms
proof (induction m)
  case 0
  then show ?case by simp
next
  case (Suc m)
  have "count_events P (attempt_world h action w (Suc m)) =
      count_events P (snd (action (attempt_world h action w m)))"
    by (simp add: attempt_world_Suc count_events_def)
  also have "\<dots> = count_events P (attempt_world h action w m) + c m"
    using Suc.prems [of m] by simp
  also have "count_events P (attempt_world h action w m) = count_events P w + sum_list (map c [0..<m])"
    using Suc.IH Suc.prems by simp
  finally show ?case by simp
qed

lemma count_after_delay:
  "\<not> P (EvWait (default_to 0 (c_waitBefore cfg))) \<Longrightarrow>
   count_events P (after_delay h cfg w) = count_events P w"
  by (simp add: after_delay_def count_events_def)

lemma count_suspend [simp]: "count_events P (suspend h w) = count_events P w"
  by (simp add: count_events_def)

lemma sum_list_indicator:
  "sum_list (map (\<lambda>j. if P j then 1 else 0) xs) = length (filter P xs)"
  by (induction xs) simp_all

lemma sum_list_const_1: "sum_list (map (\<lambda>j. Suc 0) [0..<m]) = m"
  by (induction m) simp_all

lemma sum_list_const_0: "sum_list (map (\<lambda>j. 0::nat) xs) = 0"
  by (induction xs) simp_all

lemma loop_all_failed:
  assumes "\<And>j. int j \<le> retries \<Longrightarrow> fst (action (attempt_world h action w j)) = Inr False"
  shows "withRetry_loop h action retries onError 0 w =
         (Inr False, attempt_world h action w (nat (retries + 1)))"
proof (cases "0 \<le> retries")
  case False
  then show ?thesis by (simp add: loop_exit)
next
  case True
  let ?m = "nat (retries + 1)"
  have "withRetry_loop h action retries onError 0 w =
      withRetry_loop h action retries onError (0 + int ?m) (attempt_world h action w ?m)"
  proof (rule loop_skips_failures)
    fix j assume "j < ?m"
    then have "int j \<le> retries" by simp
    then show "fst (action (attempt_world h action w j)) = Inr False" by (rule assms)
  next
    show "0 + int ?m \<le> retries + 1" using True by simp
  qed
  moreover have "\<not> 0 + int ?m \<le> retries" using True by simp
  ultimately show ?thesis by (simp add: loop_exit)
qed

lemma loop_first_success:
  assumes "0 < k" "int k \<le> retries + 1"
    and "\<And>j. j < k - 1 \<Longrightarrow> fst (action (attempt_world h action w j)) = Inr False"
    and "fst (action (attempt_world h action w (k - 1))) = Inr True"
  shows "withRetry_loop h action retries onError 0 w =
         (Inr True, suspend h (snd (action (attempt_world h action w (k - 1)))))"
proof -
  let ?v = "attempt_world h action w (k - 1)"
  have bound: "0 + int (k - 1) \<le> retries"
    using assms(1,2) by (cases k) simp_all
  then have "0 + int (k - 1) \<le> retries + 1" by simp
  with assms(3) have "withRetry_loop h action retries onError 0 w =
      withRetry_loop h action retries onError (0 + int (k - 1)) ?v"
    by (rule loop_skips_failures)
  moreover note bound
  moreover have "action ?v = (Inr True, snd (action ?v))"
    using assms(4) by (cases "action ?v") simp
  ultimately show ?thesis by (simp add: loop_success)
qed

section \<open>Descriptors of a known kind\<close>

lemma generateActionByType_supported:
  "descriptor_primitive cfg = Some a \<Longrightarrow>
   generateActionByType h (c_type cfg) (Some (default_to [] (c_value cfg))) =
     Inr (invoke_primitive h a)"
  by (auto simp: descriptor_primitive_def generateActionByType_def split: if_splits)

lemma config_thunk_supported:
  "descriptor_primitive cfg = Some a \<Longrightarrow>
   config_thunk h cfg v = findAndPerformAction h (c_selector cfg) (invoke_primitive h a) v"
  by (simp add: config_thunk_def findAndPerformActionByType_def generateActionByType_supported)

lemma descriptor_primitive_None:
  "descriptor_primitive cfg = None \<Longrightarrow> c_type cfg \<notin> {CLICK, INPUT, FOCUS, READ_TEXT}"
  by (auto simp: descriptor_primitive_def split: if_splits)

text \<open>What one attempt of a descriptor of a known kind does, case by case.\<close>

lemma attempt_not_found:
  assumes "descriptor_primitive cfg = Some a"
    and "querySelector h (page v) (c_selector cfg) = Null"
  shows "config_thunk h cfg v = (Inr False, emit (EvQuery (c_selector cfg)) v)"
  using assms
  by (simp add: config_thunk_supported findAndPerformAction_def findAndPerformAction_try_def)

lemma attempt_lookup_threw:
  assumes "descriptor_primitive cfg = Some a"
    and "querySelector h (page v) (c_selector cfg) = Threw e"
  shows "config_thunk h cfg v =
    (Inr False, emit (EvConsoleError e) (emit (EvQuery (c_selector cfg)) v))"
  using assms
  by (simp add: config_thunk_supported findAndPerformAction_def findAndPerformAction_try_def)

lemma attempt_faulted:
  assumes "descriptor_primitive cfg = Some a"
    and "querySelector h (page v) (c_selector cfg) = Found el"
    and "fst (operate h a el (page v)) = Some e"
  shows "fst (config_thunk h cfg v) = Inr False \<and>
    trace (snd (config_thunk h cfg v)) =
      trace v @ [EvQuery (c_selector cfg), EvPrimitive a el, EvConsoleError e]"
  using assms
  by (auto simp: config_thunk_supported findAndPerformAction_def findAndPerformAction_try_def
      invoke_primitive_def split: prod.splits)

lemma attempt_succeeded:
  assumes "descriptor_primitive cfg = Some a"
    and "querySelector h (page v) (c_selector cfg) = Found el"
    and "fst (operate h a el (page v)) = None"
  shows "fst (config_thunk h cfg v) = Inr True \<and>
    trace (snd (config_thunk h cfg v)) = trace v @ [EvQuery (c_selector cfg), EvPrimitive a el]"
  using assms
  by (auto simp: config_thunk_supported findAndPerformAction_def findAndPerformAction_try_def
      invoke_primitive_def split: prod.splits)

lemma attempt_counts:
  assumes "descriptor_primitive cfg = Some a"
  shows "count_events is_query (snd (config_thunk h cfg v)) = count_events is_query v + 1"
    and "count_events is_primitive (snd (config_thunk h cfg v)) =
      count_events is_primitive v +
      (if resolves (querySelector h (page v) (c_selector cfg)) then 1 else 0)"
    and "count_events is_onError (snd (config_thunk h cfg v)) = count_events is_onError v"
proof -
  consider (threw) e where "querySelector h (page v) (c_selector cfg) = Threw e"
    | (null) "querySelector h (page v) (c_selector cfg) = Null"
    | (faulted) el e where "querySelector h (page v) (c_selector cfg) = Found el"
        "fst (operate h a el (page v)) = Some e"
    | (succeeded) el where "querySelector h (page v) (c_selector cfg) = Found el"
        "fst (operate h a el (page v)) = None"
    by (cases "querySelector h (page v) (c_selector cfg)";
        cases "fst (operate h a (case querySelector h (page v) (c_selector cfg) of Found el \<Rightarrow> el | _ \<Rightarrow> 0) (page v))")
      auto
  then have "count_events is_query (snd (config_thunk h cfg v)) = count_events is_query v + 1 \<and>
    count_events is_primitive (snd (config_thunk h cfg v)) =
      count_events is_primitive v +
      (if resolves (querySelector h (page v) (c_selector cfg)) then 1 else 0) \<and>
    count_events is_onError (snd (config_thunk h cfg v)) = count_events is_onError v"
  proof cases
    case threw
    then show ?thesis using attempt_lookup_threw [OF assms threw] by (simp add: count_events_def)
  next
    case null
    then show ?thesis using attempt_not_found [OF assms null] by (simp add: count_events_def)
  next
    case faulted
    then show ?thesis using attempt_faulted [OF assms faulted] by (simp add: count_events_def)
  next
    case succeeded
    then show ?thesis using attempt_succeeded [OF assms succeeded] by (simp add: count_events_def)
  qed
  then show "count_events is_query (snd (config_thunk h cfg v)) = count_events is_query v + 1"
    and "count_events is_primitive (snd (config_thunk h cfg v)) =
      count_events is_primitive v +
      (if resolves (querySelector h (page v) (c_selector cfg)) then 1 else 0)"
    and "count_events is_onError (snd (config_thunk h cfg v)) = count_events is_onError v"
    by simp_all
qed

lemma config_thunk_fulfils:
  assumes "descriptor_primitive cfg = Some a"
  shows "\<exists>b. fst (config_thunk h cfg v) = Inr b"
  using assms
  by (auto simp: config_thunk_supported findAndPerformAction_def split: prod.splits sum.splits)

lemma success_needs_known_kind:
  "fst (config_thunk h cfg v) = Inr True \<Longrightarrow> \<exists>a. descriptor_primitive cfg = Some a"
  using config_thunk_unsupported [of cfg h v] descriptor_primitive_None [of cfg]
  by (cases "descriptor_primitive cfg") auto

lemma success_needs_element:
  assumes "descriptor_primitive cfg = Some a" "fst (config_thunk h cfg v) = Inr True"
  shows "resolves (querySelector h (page v) (c_selector cfg))"
proof (cases "querySelector h (page v) (c_selector cfg)")
  case (Threw e)
  then show ?thesis using attempt_lookup_threw [OF assms(1) Threw] assms(2) by simp
next
  case Null
  then show ?thesis using attempt_not_found [OF assms(1) Null] assms(2) by simp
next
  case (Found el)
  then show ?thesis by simp
qed

text \<open>
  C2, as the code has it. Take a descriptor of a known kind whose element is found and
  whose operation throws in every attempt of its run. The operation is invoked once per
  attempt, \<^verbatim>\<open>retries + 1\<close> times, and the result is \<^verbatim>\<open>false\<close>. But the exception never
  leaves \<^verbatim>\<open>findAndPerformAction\<close>, whose \<^verbatim>\<open>catch\<close> block logs it with \<^verbatim>\<open>console.error\<close>
  and returns \<^verbatim>\<open>false\<close>: the loop of \<^verbatim>\<open>withRetry\<close> sees a \<^verbatim>\<open>false\<close>, not an exception, and
  \<^verbatim>\<open>onError\<close> is not invoked at all.
\<close>

theorem faulting_primitive_is_logged_not_observed:
  assumes prim: "descriptor_primitive cfg = Some a"
    and every: "\<And>j. int j \<le> default_to 0 (c_retries cfg) \<Longrightarrow>
      \<exists>el e. querySelector h
                (page (attempt_world h (config_thunk h cfg) (after_delay h cfg w) j))
                (c_selector cfg) = Found el \<and>
             fst (operate h a el
                (page (attempt_world h (config_thunk h cfg) (after_delay h cfg w) j))) = Some e"
  shows "fst (performActionByConfig h cfg w) = Inr False \<and>
    count_events is_primitive (snd (performActionByConfig h cfg w)) =
      count_events is_primitive w + nat (default_to 0 (c_retries cfg) + 1) \<and>
    count_events is_consoleError (snd (performActionByConfig h cfg w)) =
      count_events is_consoleError w + nat (default_to 0 (c_retries cfg) + 1) \<and>
    count_events is_onError (snd (performActionByConfig h cfg w)) = count_events is_onError w"
proof -
  let ?T = "config_thunk h cfg" and ?w1 = "after_delay h cfg w"
  let ?N = "default_to 0 (c_retries cfg)"
  let ?aw = "attempt_world h ?T ?w1"
  have att: "fst (?T (?aw j)) = Inr False \<and>
      (\<exists>el e. trace (snd (?T (?aw j))) =
         trace (?aw j) @ [EvQuery (c_selector cfg), EvPrimitive a el, EvConsoleError e])"
    if "int j \<le> ?N" for j
    using every [OF that] attempt_faulted [OF prim, of h "?aw j"] by blast
  have run: "performActionByConfig h cfg w = (Inr False, ?aw (nat (?N + 1)))"
    unfolding performActionByConfig_unfold using att by (intro loop_all_failed) simp
  have "count_events is_primitive (?aw (nat (?N + 1))) =
      count_events is_primitive ?w1 + sum_list (map (\<lambda>j. 1) [0..<nat (?N + 1)])"
  proof (rule count_events_attempt_world)
    fix j assume "j < nat (?N + 1)"
    then have "int j \<le> ?N" by simp
    from att [OF this] show "count_events is_primitive (snd (?T (?aw j))) =
        count_events is_primitive (?aw j) + 1"
      by (auto simp: count_events_def)
  qed
  moreover have "count_events is_consoleError (?aw (nat (?N + 1))) =
      count_events is_consoleError ?w1 + sum_list (map (\<lambda>j. 1) [0..<nat (?N + 1)])"
  proof (rule count_events_attempt_world)
    fix j assume "j < nat (?N + 1)"
    then have "int j \<le> ?N" by simp
    from att [OF this] show "count_events is_consoleError (snd (?T (?aw j))) =
        count_events is_consoleError (?aw j) + 1"
      by (auto simp: count_events_def)
  qed
  moreover have "count_events is_onError (?aw (nat (?N + 1))) =
      count_events is_onError ?w1 + sum_list (map (\<lambda>j. 0) [0..<nat (?N + 1)])"
  proof (rule count_events_attempt_world)
    fix j assume "j < nat (?N + 1)"
    then have "int j \<le> ?N" by simp
    from att [OF this] show "count_events is_onError (snd (?T (?aw j))) =
        count_events is_onError (?aw j) + 0"
      by (auto simp: count_events_def)
  qed
  ultimately show ?thesis
    using run by (simp add: count_after_delay sum_list_const_1 sum_list_const_0)
qed

theorem faulting_primitive_is_logged_not_observed_witness:
  "fst (performActionByConfig demo_host recorded_click demo_world) = Inr False \<and>
   count_events is_primitive (snd (performActionByConfig demo_host recorded_click demo_world)) = 3 \<and>
   count_events is_consoleError (snd (performActionByConfig demo_host recorded_click demo_world)) = 3 \<and>
   count_events is_onError (snd (performActionByConfig demo_host recorded_click demo_world)) = 0"
  using faulting_primitive_is_logged_not_observed [of recorded_click Click demo_host demo_world]
  by (simp add: recorded_click_def descriptor_primitive_def demo_host_def demo_world_def
      count_events_def)

text \<open>
  The claim as the specification states it fails: for a click on \<^verbatim>\<open>#bad\<close> with
  \<^verbatim>\<open>retries: 2\<close> the click is invoked and throws three times, and the observer of the
  descriptor is invoked zero times, not three.
\<close>

theorem faulting_primitive_never_reaches_onError:
  "c_onError recorded_click = Some (ConsoleReporter ''click #bad failed:'') \<and>
   c_retries recorded_click = Some 2 \<and>
   performActionByConfig demo_host recorded_click demo_world =
     (Inr False,
      \<lparr>page = \<lparr>ticks = 3, b_present = True\<rparr>,
       trace = [EvWait 200,
         EvQuery ''#bad'', EvPrimitive Click 4, EvConsoleError (HostFault 1),
         EvQuery ''#bad'', EvPrimitive Click 4, EvConsoleError (HostFault 1),
         EvQuery ''#bad'', EvPrimitive Click 4, EvConsoleError (HostFault 1)]\<rparr>) \<and>
   count_events is_onError (snd (performActionByConfig demo_host recorded_click demo_world)) = 0"
  by (simp add: run_defs recorded_click_def)

text \<open>
  C3, as the code has it. When attempt \<open>k\<close> of a descriptor is the first that returns
  \<^verbatim>\<open>true\<close>, with \<open>k \<le> retries + 1\<close>, the result is \<^verbatim>\<open>true\<close>, the run ends with that attempt
  (its world is the one in which attempt \<open>k\<close> ended), and
  \<^verbatim>\<open>findAndPerformAction\<close> has looked the selector up exactly \<open>k\<close> times. The element
  operation is invoked in the attempts whose lookup found an element: at least once, at
  most \<open>k\<close> times, and \<open>k\<close> times only if the element was there in every attempt.
\<close>

theorem first_success_ends_the_loop:
  assumes k: "0 < k" "int k \<le> default_to 0 (c_retries cfg) + 1"
    and fails: "\<And>j. j < k - 1 \<Longrightarrow>
      fst (config_thunk h cfg
        (attempt_world h (config_thunk h cfg) (after_delay h cfg w) j)) \<noteq> Inr True"
    and succeeds:
      "fst (config_thunk h cfg
        (attempt_world h (config_thunk h cfg) (after_delay h cfg w) (k - 1))) = Inr True"
  shows "performActionByConfig h cfg w =
      (Inr True, suspend h (snd (config_thunk h cfg
         (attempt_world h (config_thunk h cfg) (after_delay h cfg w) (k - 1))))) \<and>
    count_events is_query (snd (performActionByConfig h cfg w)) = count_events is_query w + k \<and>
    count_events is_primitive (snd (performActionByConfig h cfg w)) =
      count_events is_primitive w + resolved_attempts h cfg (after_delay h cfg w) k \<and>
    1 \<le> resolved_attempts h cfg (after_delay h cfg w) k \<and>
    resolved_attempts h cfg (after_delay h cfg w) k \<le> k"
proof -
  let ?T = "config_thunk h cfg" and ?w1 = "after_delay h cfg w"
  let ?aw = "attempt_world h ?T ?w1"
  let ?R = "\<lambda>j. resolves (querySelector h (page (?aw j)) (c_selector cfg))"
  obtain a where prim: "descriptor_primitive cfg = Some a"
    using success_needs_known_kind [OF succeeds] by blast
  have false: "fst (?T (?aw j)) = Inr False" if "j < k - 1" for j
    using fails [OF that] config_thunk_fulfils [OF prim, of h "?aw j"] by auto
  have run: "performActionByConfig h cfg w = (Inr True, suspend h (snd (?T (?aw (k - 1)))))"
    unfolding performActionByConfig_unfold using k false succeeds by (intro loop_first_success)
  have split: "[0..<k] = [0..<k - 1] @ [k - 1]"
    using k(1) by (cases k) simp_all
  have last: "?R (k - 1)"
    using prim succeeds by (rule success_needs_element)
  have q: "count_events is_query (?aw (k - 1)) =
      count_events is_query ?w1 + sum_list (map (\<lambda>j. 1) [0..<k - 1])"
    by (rule count_events_attempt_world) (simp add: attempt_counts(1) [OF prim])
  have p: "count_events is_primitive (?aw (k - 1)) =
      count_events is_primitive ?w1 + sum_list (map (\<lambda>j. if ?R j then 1 else 0) [0..<k - 1])"
    by (rule count_events_attempt_world) (simp add: attempt_counts(2) [OF prim])
  have "count_events is_query (snd (?T (?aw (k - 1)))) = count_events is_query w + k"
    using q k(1) by (simp add: attempt_counts(1) [OF prim] count_after_delay sum_list_const_1)
  moreover have "count_events is_primitive (snd (?T (?aw (k - 1)))) =
      count_events is_primitive w + resolved_attempts h cfg ?w1 k"
    using p last
    by (simp add: attempt_counts(2) [OF prim] count_after_delay sum_list_indicator
        resolved_attempts_def split)
  moreover have "1 \<le> resolved_attempts h cfg ?w1 k"
    using last by (simp add: resolved_attempts_def split)
  moreover have "resolved_attempts h cfg ?w1 k \<le> k"
    unfolding resolved_attempts_def using length_filter_le [of ?R "[0..<k]"] by simp
  ultimately show ?thesis using run by simp
qed

theorem first_success_ends_the_loop_witness:
  "performActionByConfig demo_host late_click demo_world =
     (Inr True,
      \<lparr>page = \<lparr>ticks = 2, b_present = True\<rparr>,
       trace = [EvQuery ''#late'', EvQuery ''#late'', EvPrimitive Click 3]\<rparr>) \<and>
   count_events is_query (snd (performActionByConfig demo_host late_click demo_world)) = 2 \<and>
   count_events is_primitive (snd (performActionByConfig demo_host late_click demo_world)) = 1"
  using first_success_ends_the_loop [of 2 late_click demo_host demo_world]
  by (simp add: late_click_def config_thunk_def after_delay_def attempt_world_def
      resolved_attempts_def findAndPerformActionByType_def
      generateActionByType_def findAndPerformAction_def findAndPerformAction_try_def
      invoke_primitive_def suspend_def emit_def
      CLICK_def INPUT_def FOCUS_def READ_TEXT_def demo_host_def demo_world_def Let_def
      count_events_def)

text \<open>
  The claim as the specification states it fails: \<^verbatim>\<open>#late\<close> is not there in the first
  attempt and is there in the second, so the first success is in attempt \<open>k = 2\<close>
  (with \<^verbatim>\<open>retries: 1\<close>), and the click is invoked once, not twice.
\<close>

theorem first_success_after_unresolved_attempt:
  "c_retries late_click = Some 1 \<and>
   fst (config_thunk demo_host late_click demo_world) = Inr False \<and>
   fst (config_thunk demo_host late_click
     (attempt_world demo_host (config_thunk demo_host late_click) demo_world 1)) = Inr True \<and>
   fst (performActionByConfig demo_host late_click demo_world) = Inr True \<and>
   count_events is_primitive (snd (performActionByConfig demo_host late_click demo_world)) = 1"
  by (simp add: run_defs late_click_def config_thunk_def attempt_world_def)

text \<open>
  C4, as the code has it. Take a descriptor of one of the four kinds whose selector matches
  no element in any attempt of its run. Every attempt returns \<^verbatim>\<open>false\<close>, the result is
  \<^verbatim>\<open>false\<close>, the observer is never invoked, and neither is an element operation.
\<close>

theorem unresolved_locator_never_observed:
  assumes prim: "descriptor_primitive cfg = Some a"
    and never: "\<And>j. int j \<le> default_to 0 (c_retries cfg) \<Longrightarrow>
      querySelector h (page (attempt_world h (config_thunk h cfg) (after_delay h cfg w) j))
        (c_selector cfg) = Null"
  shows "(\<forall>j. int j \<le> default_to 0 (c_retries cfg) \<longrightarrow>
       fst (config_thunk h cfg
         (attempt_world h (config_thunk h cfg) (after_delay h cfg w) j)) = Inr False) \<and>
    fst (performActionByConfig h cfg w) = Inr False \<and>
    count_events is_onError (snd (performActionByConfig h cfg w)) = count_events is_onError w \<and>
    count_events is_primitive (snd (performActionByConfig h cfg w)) =
      count_events is_primitive w"
proof -
  let ?T = "config_thunk h cfg" and ?w1 = "after_delay h cfg w"
  let ?N = "default_to 0 (c_retries cfg)"
  let ?aw = "attempt_world h ?T ?w1"
  have att: "?T (?aw j) = (Inr False, emit (EvQuery (c_selector cfg)) (?aw j))"
    if "int j \<le> ?N" for j
    using never [OF that] by (rule attempt_not_found [OF prim])
  have run: "performActionByConfig h cfg w = (Inr False, ?aw (nat (?N + 1)))"
    unfolding performActionByConfig_unfold using att by (intro loop_all_failed) simp
  have "count_events is_primitive (?aw (nat (?N + 1))) =
      count_events is_primitive ?w1 + sum_list (map (\<lambda>j. 0) [0..<nat (?N + 1)])"
  proof (rule count_events_attempt_world)
    fix j assume "j < nat (?N + 1)"
    then have "int j \<le> ?N" by simp
    from att [OF this] show "count_events is_primitive (snd (?T (?aw j))) =
        count_events is_primitive (?aw j) + 0"
      by (simp add: count_events_def)
  qed
  moreover have "count_events is_onError (?aw (nat (?N + 1))) =
      count_events is_onError ?w1 + sum_list (map (\<lambda>j. 0) [0..<nat (?N + 1)])"
  proof (rule count_events_attempt_world)
    fix j assume "j < nat (?N + 1)"
    then have "int j \<le> ?N" by simp
    from att [OF this] show "count_events is_onError (snd (?T (?aw j))) =
        count_events is_onError (?aw j) + 0"
      by (simp add: count_events_def)
  qed
  ultimately show ?thesis
    using run att by (simp add: count_after_delay sum_list_const_0)
qed

theorem unresolved_locator_never_observed_witness:
  "fst (performActionByConfig demo_host missing_focus demo_world) = Inr False \<and>
   count_events is_onError (snd (performActionByConfig demo_host missing_focus demo_world)) = 0 \<and>
   count_events is_primitive (snd (performActionByConfig demo_host missing_focus demo_world)) = 0"
  using unresolved_locator_never_observed [of missing_focus Focus demo_host demo_world]
  by (simp add: missing_focus_def descriptor_primitive_def demo_host_def demo_world_def
      count_events_def CLICK_def INPUT_def FOCUS_def READ_TEXT_def)

text \<open>
  The claim as the specification states it, for every descriptor, fails: with
  \<^verbatim>\<open>{selector: "#missing", type: "hover", retries: 2, onError: ...}\<close> the page has no
  \<^verbatim>\<open>#missing\<close> in any of the three attempts, but each attempt ends in the factory's error,
  not in \<^verbatim>\<open>false\<close>, and the observer is invoked three times.
\<close>

theorem unresolved_locator_of_unknown_kind_is_observed:
  "querySelector demo_host (page demo_world) (c_selector missing_hover) = Null \<and>
   querySelector demo_host
     (page (attempt_world demo_host (config_thunk demo_host missing_hover) demo_world 1))
     (c_selector missing_hover) = Null \<and>
   querySelector demo_host
     (page (attempt_world demo_host (config_thunk demo_host missing_hover) demo_world 2))
     (c_selector missing_hover) = Null \<and>
   fst (config_thunk demo_host missing_hover demo_world) = Inl (UnsupportedType ''hover'') \<and>
   fst (performActionByConfig demo_host missing_hover demo_world) = Inr False \<and>
   count_events is_onError (snd (performActionByConfig demo_host missing_hover demo_world)) = 3"
  by (simp add: run_defs missing_hover_def config_thunk_def attempt_world_def numeral_2_eq_2)

section \<open>The recorder\<close>

lemma startRecording_new:
  "startRecording new_VisualRecorder =
     \<lparr>recordedConfig = [], eventListeners = started_listeners, isFirstClick = True,
      documentListeners = started_listeners\<rparr>"
  by (simp add: startRecording_def new_VisualRecorder_def addEventListener_def started_listeners_def)

lemma dispatch_started:
  assumes "documentListeners r = started_listeners"
  shows "dispatch event r =
     (if ev_type event = ''click'' then handleClick event r
      else if ev_type event = ''input'' then handleInput event r
      else if ev_type event = ''focus'' then handleFocus event r
      else r)"
  using assms by (simp add: dispatch_def started_listeners_def)

lemma handlers_keep_listeners:
  "documentListeners (handleClick event r) = documentListeners r"
  "documentListeners (handleInput event r) = documentListeners r"
  "documentListeners (handleFocus event r) = documentListeners r"
  by (simp_all add: handleClick_def handleInput_def handleFocus_def Let_def)

lemma dispatch_keeps_listeners:
  "documentListeners r = started_listeners \<Longrightarrow>
   documentListeners (dispatch event r) = started_listeners"
  by (simp add: dispatch_started handlers_keep_listeners)

lemma dispatch_keeps_policy:
  assumes "documentListeners r = started_listeners"
    and "\<forall>cfg \<in> set (recordedConfig r). c_waitBefore cfg = Some 200 \<and> c_retries cfg = Some 2"
  shows "\<forall>cfg \<in> set (recordedConfig (dispatch event r)).
           c_waitBefore cfg = Some 200 \<and> c_retries cfg = Some 2"
  using assms(2)
  by (auto simp: dispatch_started [OF assms(1)] handleClick_def handleInput_def handleFocus_def Let_def)

lemma observe_keeps_policy:
  assumes "documentListeners r = started_listeners"
    and "\<forall>cfg \<in> set (recordedConfig r). c_waitBefore cfg = Some 200 \<and> c_retries cfg = Some 2"
  shows "\<forall>cfg \<in> set (recordedConfig (observe events r)).
           c_waitBefore cfg = Some 200 \<and> c_retries cfg = Some 2"
  using assms
proof (induction events arbitrary: r)
  case Nil
  then show ?case by (simp add: observe_def)
next
  case (Cons e es)
  have "observe (e # es) r = observe es (dispatch e r)" by (simp add: observe_def)
  then show ?case
    using Cons.IH [of "dispatch e r"] dispatch_keeps_listeners [OF Cons.prems(1)]
      dispatch_keeps_policy [OF Cons.prems] by simp
qed

lemma observe_before_first_click:
  assumes "documentListeners r = started_listeners" "isFirstClick r"
    and "\<forall>e \<in> set events. ev_type e \<noteq> ''click''"
  shows "documentListeners (observe events r) = started_listeners \<and> isFirstClick (observe events r)"
  using assms
proof (induction events arbitrary: r)
  case Nil
  then show ?case by (simp add: observe_def)
next
  case (Cons e es)
  have "observe (e # es) r = observe es (dispatch e r)" by (simp add: observe_def)
  moreover have "isFirstClick (dispatch e r)"
    using Cons.prems by (simp add: dispatch_started handleInput_def handleFocus_def Let_def)
  ultimately show ?case
    using Cons.IH [of "dispatch e r"] dispatch_keeps_listeners [OF Cons.prems(1)] Cons.prems(3)
    by simp
qed

text \<open>
  C9. Start a new recorder and let it observe any sequence of events. Every descriptor it
  has recorded has \<^verbatim>\<open>waitBefore: 200\<close> and \<^verbatim>\<open>retries: 2\<close>. And the first click records
  nothing: after events none of which is a click, a click leaves the recorded list as it
  was.
\<close>

theorem recorder_drops_first_click_and_fixes_policy:
  "(\<forall>cfg \<in> set (getRecordedConfig (observe events (startRecording new_VisualRecorder))).
      c_waitBefore cfg = Some 200 \<and> c_retries cfg = Some 2) \<and>
   (ev_type click = ''click'' \<and> (\<forall>e \<in> set before. ev_type e \<noteq> ''click'') \<longrightarrow>
      getRecordedConfig (observe (before @ [click]) (startRecording new_VisualRecorder)) =
      getRecordedConfig (observe before (startRecording new_VisualRecorder)))"
proof -
  let ?r0 = "startRecording new_VisualRecorder"
  have l0: "documentListeners ?r0 = started_listeners" and f0: "isFirstClick ?r0"
    and c0: "recordedConfig ?r0 = []"
    by (simp_all add: startRecording_new)
  have "\<forall>cfg \<in> set (recordedConfig (observe events ?r0)).
      c_waitBefore cfg = Some 200 \<and> c_retries cfg = Some 2"
    using l0 by (rule observe_keeps_policy) (simp add: c0)
  moreover have "recordedConfig (observe (before @ [click]) ?r0) = recordedConfig (observe before ?r0)"
    if "ev_type click = ''click''" "\<forall>e \<in> set before. ev_type e \<noteq> ''click''"
  proof -
    have "documentListeners (observe before ?r0) = started_listeners \<and> isFirstClick (observe before ?r0)"
      using l0 f0 that(2) by (rule observe_before_first_click)
    moreover have "observe (before @ [click]) ?r0 = dispatch click (observe before ?r0)"
      by (simp add: observe_def)
    ultimately show ?thesis
      using that(1) by (simp add: dispatch_started handleClick_def)
  qed
  ultimately show ?thesis by (simp add: getRecordedConfig_def)
qed

theorem recorder_drops_first_click_and_fixes_policy_witness:
  "list_all (\<lambda>cfg. c_waitBefore cfg = Some 200 \<and> c_retries cfg = Some 2)
     (getRecordedConfig (observe [input_name, click_go, click_go] (startRecording new_VisualRecorder))) \<and>
   length (getRecordedConfig
     (observe [input_name, click_go, click_go] (startRecording new_VisualRecorder))) = 2 \<and>
   getRecordedConfig (observe ([input_name] @ [click_go]) (startRecording new_VisualRecorder)) =
   getRecordedConfig (observe [input_name] (startRecording new_VisualRecorder))"
  using recorder_drops_first_click_and_fixes_policy
    [of "[input_name, click_go, click_go]" click_go "[input_name]"]
  by (simp add: list_all_iff input_name_def click_go_def observe_def startRecording_new
      dispatch_def started_listeners_def handleClick_def handleInput_def handleFocus_def
      getRecordedConfig_def Let_def)

section \<open>The batch runner\<close>

subsection \<open>A run on its own reaches the outcome of performActionByConfig\<close>

lemma task_run_settled: "task_run h cfg (outcome_task x, v) = (outcome_task x, v)"
  by (cases x) (simp_all add: task_run_def)

lemma funpow_settled: "(task_run h cfg ^^ m) (outcome_task x, v) = (outcome_task x, v)"
  by (induction m) (simp_all add: task_run_settled)

lemma enter_iteration_step:
  assumes "i \<le> default_to 0 (c_retries cfg)"
  shows "(\<exists>x v'. task_run h cfg (enter_iteration h cfg i v) = (outcome_task x, v') \<and>
            withRetry_loop h (config_thunk h cfg) (default_to 0 (c_retries cfg)) (c_onError cfg) i v
              = (x, v')) \<or>
         (\<exists>v'. task_run h cfg (enter_iteration h cfg i v) = enter_iteration h cfg (i + 1) v' \<and>
            withRetry_loop h (config_thunk h cfg) (default_to 0 (c_retries cfg)) (c_onError cfg) i v
              = withRetry_loop h (config_thunk h cfg) (default_to 0 (c_retries cfg))
                  (c_onError cfg) (i + 1) v')"
proof -
  let ?N = "default_to 0 (c_retries cfg)"
  obtain r v1 where a: "config_thunk h cfg v = (r, v1)" by (cases "config_thunk h cfg v")
  have e: "enter_iteration h cfg i v = (Pending i r, v1)"
    using assms a by (simp add: enter_iteration_def)
  show ?thesis
  proof (cases r)
    case (Inr b)
    show ?thesis
    proof (cases b)
      case True
      have "task_run h cfg (enter_iteration h cfg i v) = (outcome_task (Inr True), suspend h v1)"
        using e Inr True by (simp add: task_run_def)
      moreover have "withRetry_loop h (config_thunk h cfg) ?N (c_onError cfg) i v =
          (Inr True, suspend h v1)"
        using assms a Inr True by (simp add: loop_success)
      ultimately show ?thesis by blast
    next
      case False
      have "task_run h cfg (enter_iteration h cfg i v) = enter_iteration h cfg (i + 1) (suspend h v1)"
        using e Inr False by (simp add: task_run_def)
      moreover have "withRetry_loop h (config_thunk h cfg) ?N (c_onError cfg) i v =
          withRetry_loop h (config_thunk h cfg) ?N (c_onError cfg) (i + 1) (suspend h v1)"
        using assms a Inr False by (simp add: loop_failure)
      ultimately show ?thesis by blast
    qed
  next
    case (Inl err)
    show ?thesis
    proof (cases "c_onError cfg")
      case None
      have "task_run h cfg (enter_iteration h cfg i v) = enter_iteration h cfg (i + 1) (suspend h v1)"
        using e Inl None by (simp add: task_run_def)
      moreover have "withRetry_loop h (config_thunk h cfg) ?N (c_onError cfg) i v =
          withRetry_loop h (config_thunk h cfg) ?N (c_onError cfg) (i + 1) (suspend h v1)"
        using assms a Inl None loop_thrown_unobserved [of i ?N "config_thunk h cfg" v err v1 h]
        by simp
      ultimately show ?thesis by blast
    next
      case (Some ob)
      obtain r' v2 where nt: "notify h ob err (suspend h v1) = (r', v2)"
        by (cases "notify h ob err (suspend h v1)")
      show ?thesis
      proof (cases r')
        case None
        have "task_run h cfg (enter_iteration h cfg i v) = enter_iteration h cfg (i + 1) v2"
          using e Inl Some nt None by (simp add: task_run_def)
        moreover have "withRetry_loop h (config_thunk h cfg) ?N (c_onError cfg) i v =
            withRetry_loop h (config_thunk h cfg) ?N (c_onError cfg) (i + 1) v2"
          using assms a Inl Some nt None
            loop_thrown_observed [of i ?N "config_thunk h cfg" v err v1 h ob v2]
          by simp
        ultimately show ?thesis by blast
      next
        case (Some e')
        have "task_run h cfg (enter_iteration h cfg i v) = (outcome_task (Inl e'), v2)"
          using e Inl \<open>c_onError cfg = Some ob\<close> nt Some by (simp add: task_run_def)
        moreover have "withRetry_loop h (config_thunk h cfg) ?N (c_onError cfg) i v = (Inl e', v2)"
          using assms a Inl \<open>c_onError cfg = Some ob\<close> nt Some
            loop_thrown_rethrown [of i ?N "config_thunk h cfg" v err v1 h ob e' v2]
          by simp
        ultimately show ?thesis by blast
      qed
    qed
  qed
qed

lemma loop_as_steps:
  "\<exists>m x v'. (task_run h cfg ^^ m) (enter_iteration h cfg i v) = (outcome_task x, v') \<and>
     withRetry_loop h (config_thunk h cfg) (default_to 0 (c_retries cfg)) (c_onError cfg) i v
       = (x, v')"
proof (induction "nat (default_to 0 (c_retries cfg) + 1 - i)" arbitrary: i v)
  case 0
  then have "\<not> i \<le> default_to 0 (c_retries cfg)" by simp
  then have "(task_run h cfg ^^ 0) (enter_iteration h cfg i v) = (outcome_task (Inr False), v) \<and>
     withRetry_loop h (config_thunk h cfg) (default_to 0 (c_retries cfg)) (c_onError cfg) i v
       = (Inr False, v)"
    by (simp add: enter_iteration_def loop_exit)
  then show ?case by blast
next
  case (Suc n)
  then have le: "i \<le> default_to 0 (c_retries cfg)"
    and n: "n = nat (default_to 0 (c_retries cfg) + 1 - (i + 1))" by simp_all
  from enter_iteration_step [OF le, of h v] show ?case
  proof (elim disjE exE conjE)
    fix x v'
    assume "task_run h cfg (enter_iteration h cfg i v) = (outcome_task x, v')"
      and "withRetry_loop h (config_thunk h cfg) (default_to 0 (c_retries cfg)) (c_onError cfg) i v
        = (x, v')"
    then have "(task_run h cfg ^^ 1) (enter_iteration h cfg i v) = (outcome_task x, v') \<and>
      withRetry_loop h (config_thunk h cfg) (default_to 0 (c_retries cfg)) (c_onError cfg) i v
        = (x, v')"
      by simp
    then show ?thesis by blast
  next
    fix v'
    assume s: "task_run h cfg (enter_iteration h cfg i v) = enter_iteration h cfg (i + 1) v'"
      and l: "withRetry_loop h (config_thunk h cfg) (default_to 0 (c_retries cfg)) (c_onError cfg) i v
        = withRetry_loop h (config_thunk h cfg) (default_to 0 (c_retries cfg))
            (c_onError cfg) (i + 1) v'"
    obtain m x v'' where
      "(task_run h cfg ^^ m) (enter_iteration h cfg (i + 1) v') = (outcome_task x, v'')"
      "withRetry_loop h (config_thunk h cfg) (default_to 0 (c_retries cfg)) (c_onError cfg) (i + 1) v'
        = (x, v'')"
      using Suc.hyps(1) [OF n, of v'] by blast
    then have "(task_run h cfg ^^ Suc m) (enter_iteration h cfg i v) = (outcome_task x, v'') \<and>
      withRetry_loop h (config_thunk h cfg) (default_to 0 (c_retries cfg)) (c_onError cfg) i v
        = (x, v'')"
      using s l by (simp add: funpow_swap1)
    then show ?thesis by blast
  qed
qed

lemma run_alone_reaches_outcome:
  "\<exists>m. run_alone h cfg m w =
     (outcome_task (fst (performActionByConfig h cfg w)), snd (performActionByConfig h cfg w))"
proof -
  obtain m x v' where
    steps: "(task_run h cfg ^^ m) (enter_iteration h cfg 0 (after_delay h cfg w)) = (outcome_task x, v')"
    and loop: "withRetry_loop h (config_thunk h cfg) (default_to 0 (c_retries cfg)) (c_onError cfg) 0
       (after_delay h cfg w) = (x, v')"
    using loop_as_steps [of h cfg 0 "after_delay h cfg w"] by blast
  have r: "performActionByConfig h cfg w = (x, v')"
    using loop by (simp add: performActionByConfig_unfold)
  show ?thesis
  proof (cases "0 < default_to 0 (c_waitBefore cfg)")
    case True
    have "(task_run h cfg ^^ 2) (Start, w) = enter_iteration h cfg 0 (after_delay h cfg w)"
      using True by (simp add: task_run_def after_delay_def wait_def numeral_2_eq_2)
    moreover have "(task_run h cfg ^^ (m + 2)) (Start, w) =
        (task_run h cfg ^^ m) ((task_run h cfg ^^ 2) (Start, w))"
      by (simp only: funpow_add o_apply)
    ultimately have "run_alone h cfg (m + 2) w = (outcome_task x, v')"
      using steps by (simp only: run_alone_def)
    then show ?thesis using r by auto
  next
    case False
    have "(task_run h cfg ^^ 1) (Start, w) = enter_iteration h cfg 0 (after_delay h cfg w)"
      using False by (simp add: task_run_def after_delay_def)
    moreover have "(task_run h cfg ^^ (m + 1)) (Start, w) =
        (task_run h cfg ^^ m) ((task_run h cfg ^^ 1) (Start, w))"
      by (simp only: funpow_add o_apply)
    ultimately have "run_alone h cfg (m + 1) w = (outcome_task x, v')"
      using steps by (simp only: run_alone_def)
    then show ?thesis using r by auto
  qed
qed

lemma run_alone_fulfilled:
  assumes "fst (run_alone h cfg m w) = Fulfilled b"
  shows "fst (performActionByConfig h cfg w) = Inr b"
proof -
  obtain m' where m': "run_alone h cfg m' w =
     (outcome_task (fst (performActionByConfig h cfg w)), snd (performActionByConfig h cfg w))"
    using run_alone_reaches_outcome by blast
  obtain v where v: "run_alone h cfg m w = (outcome_task (Inr b), v)"
    using assms by (cases "run_alone h cfg m w") simp
  have "(task_run h cfg ^^ (m' + m)) (Start, w) =
      (task_run h cfg ^^ m') ((task_run h cfg ^^ m) (Start, w))"
    by (simp only: funpow_add o_apply)
  then have "run_alone h cfg (m' + m) w = (outcome_task (Inr b), v)"
    using v by (simp only: run_alone_def funpow_settled)
  moreover have "(task_run h cfg ^^ (m + m')) (Start, w) =
      (task_run h cfg ^^ m) ((task_run h cfg ^^ m') (Start, w))"
    by (simp only: funpow_add o_apply)
  then have "run_alone h cfg (m' + m) w =
     (outcome_task (fst (performActionByConfig h cfg w)), snd (performActionByConfig h cfg w))"
    using m' by (simp only: run_alone_def funpow_settled add.commute [of m' m])
  ultimately show ?thesis
    by (cases "fst (performActionByConfig h cfg w)") simp_all
qed

subsection \<open>A run in a batch, seen from a descriptor the others do not affect\<close>

lemma performActionsByConfigs_run_batch:
  "performActionsByConfigs h cfgs sched w =
     (promise_all (run_batch h cfgs sched w), shared (run_batch h cfgs sched w))"
  by (simp add: performActionsByConfigs_def run_batch_def Let_def)

lemma run_batch_Nil [simp]: "run_batch h cfgs [] w = start_batch cfgs w"
  by (simp add: run_batch_def)

lemma run_batch_snoc [simp]:
  "run_batch h cfgs (sched @ [x]) w = batch_step h cfgs x (run_batch h cfgs sched w)"
  by (simp add: run_batch_def)

lemma length_tasks_batch_step [simp]: "length (tasks (batch_step h cfgs x b)) = length (tasks b)"
  by (simp add: batch_step_def split: prod.splits)

lemma length_tasks_run_batch [simp]: "length (tasks (run_batch h cfgs sched w)) = length cfgs"
  by (induction sched rule: rev_induct) (simp_all add: start_batch_def)

lemma tasks_batch_step:
  assumes "k < length (tasks b)" "length (tasks b) = length cfgs"
  shows "tasks (batch_step h cfgs x b) ! k =
     (if x = k then fst (task_step h (cfgs ! k) (tasks b ! k) (shared b)) else tasks b ! k)"
  using assms by (auto simp: batch_step_def split: prod.splits)

lemma shared_batch_step:
  assumes "length (tasks b) = length cfgs"
  shows "shared (batch_step h cfgs x b) =
     (if x < length cfgs then snd (task_step h (cfgs ! x) (tasks b ! x) (shared b)) else shared b)"
  using assms by (auto simp: batch_step_def split: prod.splits)

lemma run_alone_Suc:
  "run_alone h cfg (Suc m) w =
     task_step h cfg (fst (run_alone h cfg m w)) (snd (run_alone h cfg m w))"
  by (simp add: run_alone_def task_run_def split: prod.splits)

lemma batch_simulates_run_alone:
  assumes "k < length cfgs" "unaffected h cfgs k view"
  shows "tasks (run_batch h cfgs sched w) ! k = fst (run_alone h (cfgs ! k) (count_list sched k) w) \<and>
    view (shared (run_batch h cfgs sched w)) =
      view (snd (run_alone h (cfgs ! k) (count_list sched k) w))"
proof (induction sched rule: rev_induct)
  case Nil
  then show ?case using assms(1) by (simp add: start_batch_def run_alone_def)
next
  case (snoc x sched)
  let ?b = "run_batch h cfgs sched w"
  let ?ra = "run_alone h (cfgs ! k) (count_list sched k) w"
  have len: "length (tasks ?b) = length cfgs" by simp
  have own: "\<And>t v v'. view v = view v' \<Longrightarrow>
      fst (task_step h (cfgs ! k) t v) = fst (task_step h (cfgs ! k) t v') \<and>
      view (snd (task_step h (cfgs ! k) t v)) = view (snd (task_step h (cfgs ! k) t v'))"
    using assms(2) unfolding unaffected_def by blast
  have others: "\<And>j t v. j < length cfgs \<Longrightarrow> j \<noteq> k \<Longrightarrow>
      view (snd (task_step h (cfgs ! j) t v)) = view v"
    using assms(2) unfolding unaffected_def by blast
  show ?case
  proof (cases "x = k")
    case True
    have "count_list (sched @ [x]) k = Suc (count_list sched k)" using True by simp
    moreover have "view (shared ?b) = view (snd ?ra)" and "tasks ?b ! k = fst ?ra"
      using snoc.IH by simp_all
    moreover have "fst (task_step h (cfgs ! k) (fst ?ra) (shared ?b)) =
        fst (task_step h (cfgs ! k) (fst ?ra) (snd ?ra)) \<and>
      view (snd (task_step h (cfgs ! k) (fst ?ra) (shared ?b))) =
        view (snd (task_step h (cfgs ! k) (fst ?ra) (snd ?ra)))"
      using own [of "shared ?b" "snd ?ra" "fst ?ra"] \<open>view (shared ?b) = view (snd ?ra)\<close>
      by blast
    ultimately show ?thesis
      using assms(1) True len
      by (simp add: tasks_batch_step shared_batch_step run_alone_Suc)
  next
    case False
    have "count_list (sched @ [x]) k = count_list sched k" using False by simp
    moreover have "view (shared (batch_step h cfgs x ?b)) = view (shared ?b)"
      using others [of x "tasks ?b ! x" "shared ?b"] False len
      by (cases "x < length cfgs") (simp_all add: shared_batch_step)
    ultimately show ?thesis
      using snoc.IH assms(1) False len by (simp add: tasks_batch_step)
  qed
qed

lemma promise_all_fulfilled:
  assumes "promise_all b = Some (Inr bs)"
  shows "bs = map fulfilled_value (tasks b) \<and> list_all fulfilled (tasks b)"
  using assms by (auto simp: promise_all_def split: option.splits if_splits)

lemma fulfilled_task: "fulfilled t \<Longrightarrow> t = Fulfilled (fulfilled_value t)"
  by (cases t) simp_all

lemma batch_result_is_isolated_outcome:
  assumes "k < length cfgs" "unaffected h cfgs k view"
    and "fst (performActionsByConfigs h cfgs sched w) = Some (Inr bs)"
  shows "fst (performActionByConfig h (cfgs ! k) w) = Inr (bs ! k)"
proof -
  let ?b = "run_batch h cfgs sched w"
  have p: "promise_all ?b = Some (Inr bs)"
    using assms(3) by (simp add: performActionsByConfigs_run_batch)
  have bs: "bs = map fulfilled_value (tasks ?b)" and all: "list_all fulfilled (tasks ?b)"
    using promise_all_fulfilled [OF p] by simp_all
  have "fulfilled (tasks ?b ! k)"
    using all assms(1) by (simp add: list_all_length)
  then have "tasks ?b ! k = Fulfilled (bs ! k)"
    using fulfilled_task [of "tasks ?b ! k"] bs assms(1) by simp
  then have "fst (run_alone h (cfgs ! k) (count_list sched k) w) = Fulfilled (bs ! k)"
    using batch_simulates_run_alone [OF assms(1,2), of sched w] by simp
  then show ?thesis by (rule run_alone_fulfilled)
qed

lemma batch_result_length:
  assumes "fst (performActionsByConfigs h cfgs sched w) = Some (Inr bs)"
  shows "length bs = length cfgs"
  using promise_all_fulfilled [of "run_batch h cfgs sched w" bs] assms
  by (simp add: performActionsByConfigs_run_batch)

subsection \<open>Rejections\<close>

lemma batch_step_outside: "\<not> x < length cfgs \<Longrightarrow> batch_step h cfgs x b = b"
  by (simp add: batch_step_def)

lemma tasks_batch_step_update:
  assumes "x < length cfgs" "length (tasks b) = length cfgs"
  shows "tasks (batch_step h cfgs x b) =
     (tasks b)[x := fst (task_step h (cfgs ! x) (tasks b ! x) (shared b))]"
  using assms by (simp add: batch_step_def split: prod.splits)

lemma rejection_batch_step:
  assumes "x < length cfgs" "length (tasks b) = length cfgs"
  shows "rejection (batch_step h cfgs x b) =
     (case rejection b of
        Some e \<Rightarrow> Some e
      | None \<Rightarrow>
          (case fst (task_step h (cfgs ! x) (tasks b ! x) (shared b)) of
             Rejected e \<Rightarrow> Some e
           | _ \<Rightarrow> None))"
  using assms by (auto simp: batch_step_def split: prod.splits option.splits)

lemma not_rejected_update:
  assumes "\<forall>t \<in> set ts. \<forall>e. t \<noteq> Rejected e" and "\<And>e. t' \<noteq> Rejected e"
  shows "\<forall>t \<in> set (ts[x := t']). \<forall>e. t \<noteq> Rejected e"
proof
  fix t assume "t \<in> set (ts[x := t'])"
  then have "t = t' \<or> t \<in> set ts"
    using set_update_subset_insert [of ts x t'] by auto
  then show "\<forall>e. t \<noteq> Rejected e" using assms by auto
qed

lemma not_rejected_case:
  "\<forall>e. t \<noteq> Rejected e \<Longrightarrow> (case t of Rejected e \<Rightarrow> Some e | _ \<Rightarrow> None) = None"
  by (cases t) auto

lemma rejected_case:
  "(case t of Rejected e \<Rightarrow> Some e | _ \<Rightarrow> None) = None \<Longrightarrow> t \<noteq> Rejected e"
  by (cases t) simp_all

lemma enter_iteration_not_rejected: "fst (enter_iteration h cfg i v) \<noteq> Rejected e"
  by (simp add: enter_iteration_def split: prod.splits)

lemma task_step_not_rejected:
  assumes "\<And>ob e v. c_onError cfg = Some ob \<Longrightarrow> fst (notify h ob e v) = None"
    and "\<And>e. t \<noteq> Rejected e"
  shows "fst (task_step h cfg t v) \<noteq> Rejected e"
proof (cases t)
  case Start
  then show ?thesis by (simp add: enter_iteration_not_rejected)
next
  case Sleeping
  then show ?thesis by (simp add: enter_iteration_not_rejected)
next
  case (Pending i r)
  show ?thesis
  proof (cases r)
    case (Inr b)
    then show ?thesis using Pending by (cases b) (simp_all add: enter_iteration_not_rejected)
  next
    case (Inl err)
    show ?thesis
    proof (cases "c_onError cfg")
      case None
      then show ?thesis using Pending Inl by (simp add: enter_iteration_not_rejected)
    next
      case (Some ob)
      obtain v2 where "notify h ob err (suspend h v) = (None, v2)"
        using assms(1) [OF Some, of err "suspend h v"] by (cases "notify h ob err (suspend h v)") auto
      then show ?thesis using Pending Inl Some by (simp add: enter_iteration_not_rejected)
    qed
  qed
next
  case (Fulfilled b)
  then show ?thesis by simp
next
  case (Rejected e')
  then show ?thesis using assms(2) by simp
qed

lemma batch_never_rejected:
  assumes "observers_return h cfgs"
  shows "rejection (run_batch h cfgs sched w) = None \<and>
    (\<forall>t \<in> set (tasks (run_batch h cfgs sched w)). \<forall>e. t \<noteq> Rejected e)"
proof (induction sched rule: rev_induct)
  case Nil
  then show ?case by (simp add: start_batch_def)
next
  case (snoc x sched)
  let ?b = "run_batch h cfgs sched w"
  show ?case
  proof (cases "x < length cfgs")
    case False
    then show ?thesis using snoc.IH by (simp add: batch_step_outside)
  next
    case True
    let ?t = "fst (task_step h (cfgs ! x) (tasks ?b ! x) (shared ?b))"
    have len: "length (tasks ?b) = length cfgs" by simp
    have "cfgs ! x \<in> set cfgs" using True by simp
    then have ret: "\<And>ob e v. c_onError (cfgs ! x) = Some ob \<Longrightarrow> fst (notify h ob e v) = None"
      using assms by (simp add: observers_return_def)
    have "tasks ?b ! x \<in> set (tasks ?b)" using True by simp
    then have "\<And>e. tasks ?b ! x \<noteq> Rejected e" using snoc.IH by blast
    with ret have nr: "\<And>e. ?t \<noteq> Rejected e" by (rule task_step_not_rejected)
    have "rejection (batch_step h cfgs x ?b) = None"
      using snoc.IH not_rejected_case [of ?t] nr
      by (simp add: rejection_batch_step [OF True len])
    moreover have "\<forall>t \<in> set (tasks (batch_step h cfgs x ?b)). \<forall>e. t \<noteq> Rejected e"
      unfolding tasks_batch_step_update [OF True len]
      using snoc.IH nr by (intro not_rejected_update) auto
    ultimately show ?thesis by simp
  qed
qed

lemma batch_never_raises:
  assumes "observers_return h cfgs"
  shows "fst (performActionsByConfigs h cfgs sched w) \<noteq> Some (Inl e)"
  using batch_never_rejected [OF assms, of sched w]
  by (simp add: performActionsByConfigs_run_batch promise_all_def)

subsection \<open>Every run finishes\<close>

lemma remaining_enter_iteration:
  "remaining cfg (fst (enter_iteration h cfg i v)) \<le> nat (default_to 0 (c_retries cfg) + 1 - i)"
  by (auto simp: enter_iteration_def split: prod.splits)

lemma remaining_task_step:
  "remaining cfg (fst (task_step h cfg t v)) \<le> remaining cfg t - 1"
proof (cases t)
  case Start
  then show ?thesis
    using remaining_enter_iteration [of cfg h 0 v] by simp
next
  case Sleeping
  then show ?thesis
    using remaining_enter_iteration [of cfg h 0 "wait_fired h (default_to 0 (c_waitBefore cfg)) v"]
    by simp
next
  case (Pending i r)
  have e: "remaining cfg (fst (enter_iteration h cfg (i + 1) u)) \<le>
      nat (default_to 0 (c_retries cfg) - i)" for u
    using remaining_enter_iteration [of cfg h "i + 1" u] by simp
  show ?thesis
  proof (cases r)
    case (Inr b)
    then show ?thesis using Pending e [of "suspend h v"] by (cases b) simp_all
  next
    case (Inl err)
    show ?thesis
    proof (cases "c_onError cfg")
      case None
      then show ?thesis using Pending Inl e [of "suspend h v"] by simp
    next
      case (Some ob)
      obtain r' v2 where nt: "notify h ob err (suspend h v) = (r', v2)"
        by (cases "notify h ob err (suspend h v)")
      then show ?thesis using Pending Inl Some e [of v2] by (cases r') simp_all
    qed
  qed
next
  case (Fulfilled b)
  then show ?thesis by simp
next
  case (Rejected e)
  then show ?thesis by simp
qed

lemma batch_progress:
  assumes "k < length cfgs"
  shows "remaining (cfgs ! k) (tasks (run_batch h cfgs sched w) ! k) \<le>
    steps_needed (cfgs ! k) - count_list sched k"
proof (induction sched rule: rev_induct)
  case Nil
  then show ?case using assms by (simp add: start_batch_def steps_needed_def)
next
  case (snoc x sched)
  let ?b = "run_batch h cfgs sched w"
  have len: "length (tasks ?b) = length cfgs" by simp
  show ?case
  proof (cases "x = k")
    case True
    have "remaining (cfgs ! k) (fst (task_step h (cfgs ! k) (tasks ?b ! k) (shared ?b))) \<le>
        remaining (cfgs ! k) (tasks ?b ! k) - 1"
      by (rule remaining_task_step)
    then show ?thesis using snoc.IH assms True len by (simp add: tasks_batch_step)
  next
    case False
    then show ?thesis using snoc.IH assms len by (simp add: tasks_batch_step)
  qed
qed

lemma rejection_recorded:
  "rejection (run_batch h cfgs sched w) = None \<Longrightarrow>
   \<forall>t \<in> set (tasks (run_batch h cfgs sched w)). \<forall>e. t \<noteq> Rejected e"
proof (induction sched rule: rev_induct)
  case Nil
  then show ?case by (simp add: start_batch_def)
next
  case (snoc x sched)
  let ?b = "run_batch h cfgs sched w"
  show ?case
  proof (cases "x < length cfgs")
    case False
    then show ?thesis using snoc by (simp add: batch_step_outside)
  next
    case True
    let ?t = "fst (task_step h (cfgs ! x) (tasks ?b ! x) (shared ?b))"
    have len: "length (tasks ?b) = length cfgs" by simp
    have r: "(case rejection ?b of Some e \<Rightarrow> Some e
        | None \<Rightarrow> (case ?t of Rejected e \<Rightarrow> Some e | _ \<Rightarrow> None)) = None"
      using snoc.prems by (simp add: rejection_batch_step [OF True len])
    then have none: "rejection ?b = None" by (cases "rejection ?b") simp_all
    then have "(case ?t of Rejected e \<Rightarrow> Some e | _ \<Rightarrow> None) = None" using r by simp
    then have nr: "\<And>e. ?t \<noteq> Rejected e" by (rule rejected_case)
    show ?thesis
      unfolding run_batch_snoc tasks_batch_step_update [OF True len]
      using snoc.IH [OF none] nr by (intro not_rejected_update) auto
  qed
qed

lemma remaining_0: "remaining cfg t = 0 \<Longrightarrow> fulfilled t \<or> (\<exists>e. t = Rejected e)"
  by (cases t) simp_all

lemma batch_completes:
  assumes "\<And>k. k < length cfgs \<Longrightarrow> steps_needed (cfgs ! k) \<le> count_list sched k"
  shows "fst (performActionsByConfigs h cfgs sched w) \<noteq> None"
proof (cases "rejection (run_batch h cfgs sched w)")
  case (Some e)
  then show ?thesis by (simp add: performActionsByConfigs_run_batch promise_all_def)
next
  case None
  let ?b = "run_batch h cfgs sched w"
  have "fulfilled (tasks ?b ! k)" if "k < length cfgs" for k
  proof -
    have "remaining (cfgs ! k) (tasks ?b ! k) = 0"
      using batch_progress [OF that, of h sched w] assms [OF that] by simp
    moreover have "tasks ?b ! k \<in> set (tasks ?b)" using that by simp
    then have "\<And>e. tasks ?b ! k \<noteq> Rejected e"
      using rejection_recorded [OF None] by blast
    ultimately show ?thesis using remaining_0 by blast
  qed
  then have "list_all fulfilled (tasks ?b)" by (simp add: list_all_length)
  then show ?thesis using None by (simp add: performActionsByConfigs_run_batch promise_all_def)
qed

lemma count_list_replicate: "count_list (replicate n j) k = (if j = k then n else 0)"
  by (induction n) auto

lemma count_list_concat_replicate:
  "count_list (concat (map (\<lambda>j. replicate (f j) j) js)) k =
     sum_list (map (\<lambda>j. if j = k then f j else 0) js)"
  by (induction js) (simp_all add: count_list_replicate)

lemma sum_list_single_index:
  "sum_list (map (\<lambda>j. if j = k then g j else 0) [0..<n]) = (if k < n then g k else (0::nat))"
  by (induction n) auto

lemma count_list_sequential_schedule:
  assumes "k < length cfgs"
  shows "count_list (sequential_schedule cfgs) k = steps_needed (cfgs ! k)"
  using assms
  by (simp add: sequential_schedule_def count_list_concat_replicate sum_list_single_index)

subsection \<open>The results of a batch\<close>

text \<open>A batch of one descriptor gives what \<^verbatim>\<open>performActionByConfig\<close> gives for it.\<close>

lemma unaffected_single: "unaffected h [cfg] 0 (\<lambda>v. v)"
  by (simp add: unaffected_def)

lemma single_descriptor_batch:
  assumes "fst (performActionsByConfigs h [cfg] sched w) = Some (Inr bs)"
  shows "fst (performActionByConfig h cfg w) = Inr (bs ! 0) \<and> length bs = 1"
  using batch_result_is_isolated_outcome [of 0 "[cfg]" h "\<lambda>v. v" sched w bs]
    batch_result_length [OF assms] assms
  by (simp add: unaffected_single)

text \<open>The slot of a descriptor holds the outcome of that descriptor's own steps.\<close>

lemma own_steps_Nil [simp]: "own_steps h cfg [] = Start"
  by (simp add: own_steps_def)

lemma own_steps_snoc [simp]:
  "own_steps h cfg (vs @ [v]) = fst (task_step h cfg (own_steps h cfg vs) v)"
  by (simp add: own_steps_def)

lemma worlds_met_Nil [simp]: "worlds_met h cfgs [] w k = []"
  by (simp add: worlds_met_def)

lemma worlds_met_snoc:
  "worlds_met h cfgs (sched @ [x]) w k =
     worlds_met h cfgs sched w k @ (if x = k then [shared (run_batch h cfgs sched w)] else [])"
proof -
  have f: "filter (\<lambda>n. (sched @ [x]) ! n = k) [0..<length sched] =
      filter (\<lambda>n. sched ! n = k) [0..<length sched]"
    by (rule filter_cong) (simp_all add: nth_append)
  have m: "map (\<lambda>n. shared (run_batch h cfgs (take n (sched @ [x])) w))
        (filter (\<lambda>n. sched ! n = k) [0..<length sched]) =
      map (\<lambda>n. shared (run_batch h cfgs (take n sched) w))
        (filter (\<lambda>n. sched ! n = k) [0..<length sched])"
    by (rule map_cong) simp_all
  show ?thesis
    using f m by (simp add: worlds_met_def)
qed

lemma batch_slot_is_own_run:
  assumes "k < length cfgs"
  shows "tasks (run_batch h cfgs sched w) ! k =
    own_steps h (cfgs ! k) (worlds_met h cfgs sched w k)"
proof (induction sched rule: rev_induct)
  case Nil
  then show ?case using assms by (simp add: start_batch_def)
next
  case (snoc x sched)
  have len: "length (tasks (run_batch h cfgs sched w)) = length cfgs" by simp
  show ?case
    using snoc.IH assms len by (simp add: tasks_batch_step worlds_met_snoc)
qed

lemma batch_result_is_own_run:
  assumes "k < length cfgs"
    and "fst (performActionsByConfigs h cfgs sched w) = Some (Inr bs)"
  shows "own_steps h (cfgs ! k) (worlds_met h cfgs sched w k) = Fulfilled (bs ! k)"
proof -
  let ?b = "run_batch h cfgs sched w"
  have p: "promise_all ?b = Some (Inr bs)"
    using assms(2) by (simp add: performActionsByConfigs_run_batch)
  have bs: "bs = map fulfilled_value (tasks ?b)" and all: "list_all fulfilled (tasks ?b)"
    using promise_all_fulfilled [OF p] by simp_all
  have "fulfilled (tasks ?b ! k)"
    using all assms(1) by (simp add: list_all_length)
  then have "tasks ?b ! k = Fulfilled (bs ! k)"
    using fulfilled_task [of "tasks ?b ! k"] bs assms(1) by simp
  then show ?thesis
    using batch_slot_is_own_run [OF assms(1), of h sched w] by simp
qed


text \<open>On the concrete page, \<^verbatim>\<open>#b\<close> is not touched by a click on \<^verbatim>\<open>#late\<close>.\<close>

lemma thunk_focus_b:
  "config_thunk demo_host focus_b v =
     (if b_present (page v)
      then (Inr True, emit (EvPrimitive Focus 2) (emit (EvQuery ''#b'') v))
      else (Inr False, emit (EvQuery ''#b'') v))"
  by (simp add: config_thunk_def focus_b_def simple_config_def findAndPerformActionByType_def
      generateActionByType_def findAndPerformAction_def findAndPerformAction_try_def
      invoke_primitive_def demo_host_def CLICK_def INPUT_def FOCUS_def READ_TEXT_def emit_def)

lemma task_step_focus_b:
  assumes "b_present (page v) = b_present (page v')"
  shows "fst (task_step demo_host focus_b t v) = fst (task_step demo_host focus_b t v') \<and>
    b_present (page (snd (task_step demo_host focus_b t v))) =
    b_present (page (snd (task_step demo_host focus_b t v')))"
proof -
  have e: "enter_iteration demo_host focus_b i u =
     (if i \<le> 0 then (Pending i (fst (config_thunk demo_host focus_b u)),
        snd (config_thunk demo_host focus_b u)) else (Fulfilled False, u))" for i u
    by (simp add: enter_iteration_def focus_b_def simple_config_def split: prod.splits)
  have c: "default_to 0 (c_waitBefore focus_b) = 0" "c_onError focus_b = None"
    by (simp_all add: focus_b_def simple_config_def)
  have y: "b_present (yield demo_host p) = b_present p" for p
    by (simp add: demo_host_def)
  have f: "b_present (page (wait_fired demo_host ms u)) = b_present (page u)" for ms u
    by (simp add: wait_fired_def demo_host_def)
  show ?thesis
  proof (cases t)
    case (Pending i r)
    show ?thesis
    proof (cases r)
      case (Inr b)
      then show ?thesis using Pending assms by (cases b) (simp_all add: e c y thunk_focus_b)
    next
      case (Inl err)
      then show ?thesis using Pending assms by (simp add: e c y thunk_focus_b)
    qed
  qed (use assms in \<open>simp_all add: e c y f thunk_focus_b\<close>)
qed

lemma task_step_late_click_keeps_b:
  "b_present (page (snd (task_step demo_host late_click t v))) = b_present (page v)"
proof -
  have th: "b_present (page (snd (config_thunk demo_host late_click u))) = b_present (page u)" for u
    by (simp add: config_thunk_def late_click_def findAndPerformActionByType_def
      generateActionByType_def findAndPerformAction_def findAndPerformAction_try_def
      invoke_primitive_def demo_host_def CLICK_def emit_def)
  have e: "b_present (page (snd (enter_iteration demo_host late_click i u))) = b_present (page u)"
    for i u
    using th [of u] by (cases "config_thunk demo_host late_click u") (simp add: enter_iteration_def)
  have c: "default_to 0 (c_waitBefore late_click) = 0" "c_onError late_click = None"
    by (simp_all add: late_click_def)
  have y: "b_present (yield demo_host p) = b_present p" for p
    by (simp add: demo_host_def)
  have f: "b_present (page (wait_fired demo_host ms u)) = b_present (page u)" for ms u
    by (simp add: wait_fired_def demo_host_def)
  show ?thesis
  proof (cases t)
    case (Pending i r)
    show ?thesis
    proof (cases r)
      case (Inr b)
      then show ?thesis using Pending by (cases b) (simp_all add: e c y)
    next
      case (Inl err)
      then show ?thesis using Pending by (simp add: e c y)
    qed
  qed (simp_all add: e c y f)
qed

lemma focus_b_unaffected:
  "unaffected demo_host [focus_b, late_click] 0 (\<lambda>v. b_present (page v))"
  unfolding unaffected_def
proof (intro conjI allI impI)
  fix t and v v' :: "demo_page world" assume "b_present (page v) = b_present (page v')"
  then show "fst (task_step demo_host ([focus_b, late_click] ! 0) t v) =
      fst (task_step demo_host ([focus_b, late_click] ! 0) t v')"
    using task_step_focus_b [of v v' t] by simp
next
  fix t and v v' :: "demo_page world" assume "b_present (page v) = b_present (page v')"
  then show "b_present (page (snd (task_step demo_host ([focus_b, late_click] ! 0) t v))) =
      b_present (page (snd (task_step demo_host ([focus_b, late_click] ! 0) t v')))"
    using task_step_focus_b [of v v' t] by simp
next
  fix j t and v :: "demo_page world" assume "j < length [focus_b, late_click] \<and> j \<noteq> 0"
  then have "j = 1" by auto
  then show "b_present (page (snd (task_step demo_host ([focus_b, late_click] ! j) t v))) =
      b_present (page v)"
    by (simp add: task_step_late_click_keeps_b)
qed



end
